theory Spec2Isabelle
  imports Complex_Main "HOL-Library.Multiset" "HOL-Library.Extended_Nat"
begin

section \<open>Grid model\<close>

text \<open>
  A cell is the object \<^verbatim>\<open>{ wall, weight }\<close>. The planners read the weight as
  \<^verbatim>\<open>weight ?? 1\<close>, so a missing weight is \<open>None\<close>. Weights are the non-negative
  integers the editor writes (1 to 20). A coordinate \<^verbatim>\<open>{ r, c }\<close> is a pair of integers.
  The string key \<^verbatim>\<open>`${r},${c}`\<close> and its inverse \<^verbatim>\<open>split(",").map(Number)\<close> are a
  bijection on integer pairs: a key is modelled by the pair itself.
\<close>

record cell =
  wall :: bool
  weight :: "nat option"

type_synonym grid = "cell list list"
type_synonym coord = "int \<times> int"

datatype error = TypeError

record planning_result =
  visited :: "coord list"
  path :: "coord list"

definition DIRS4 :: "(int \<times> int) list" where
  "DIRS4 = [(1, 0), (-1, 0), (0, 1), (0, -1)]"

definition DIRS8 :: "(int \<times> int) list" where
  "DIRS8 = DIRS4 @ [(1, 1), (1, -1), (-1, 1), (-1, -1)]"

definition manhattan :: "coord \<Rightarrow> coord \<Rightarrow> real" where
  "manhattan a b = real_of_int (\<bar>fst a - fst b\<bar> + \<bar>snd a - snd b\<bar>)"

text \<open>\<^verbatim>\<open>Math.hypot\<close>, with the rounding of double arithmetic idealised to the reals.\<close>

definition euclid :: "coord \<Rightarrow> coord \<Rightarrow> real" where
  euclid_def [code del]: "euclid a b = sqrt ((real_of_int (fst a - fst b))\<^sup>2 + (real_of_int (snd a - snd b))\<^sup>2)"

definition inBounds :: "int \<Rightarrow> int \<Rightarrow> int \<Rightarrow> int \<Rightarrow> bool" where
  "inBounds r c rows cols \<longleftrightarrow> r \<ge> 0 \<and> r < rows \<and> c \<ge> 0 \<and> c < cols"

definition neighbors :: "int \<Rightarrow> int \<Rightarrow> int \<Rightarrow> int \<Rightarrow> bool \<Rightarrow> coord list" where
  "neighbors r c rows cols diag =
     filter (\<lambda>(nr, nc). inBounds nr nc rows cols)
       (map (\<lambda>(dr, dc). (r + dr, c + dc)) (if diag then DIRS8 else DIRS4))"

text \<open>
  \<^verbatim>\<open>grid[r][c]\<close> for integers \<open>r\<close>, \<open>c\<close>: reading past the end of an array gives
  \<^verbatim>\<open>undefined\<close> (here \<open>None\<close>), and reading a property of \<^verbatim>\<open>undefined\<close> raises a
  TypeError.
\<close>

definition cellAt :: "grid \<Rightarrow> coord \<Rightarrow> cell option" where
  "cellAt grid p =
     (if 0 \<le> fst p \<and> nat (fst p) < length grid \<and>
         0 \<le> snd p \<and> nat (snd p) < length (grid ! nat (fst p))
      then Some (grid ! nat (fst p) ! nat (snd p)) else None)"

definition cellWeight :: "cell \<Rightarrow> nat" where
  "cellWeight cl = (case weight cl of None \<Rightarrow> 1 | Some w \<Rightarrow> w)"

text \<open>\<^verbatim>\<open>rows = grid.length, cols = grid[0].length\<close>: raises on the empty grid.\<close>

definition dims :: "grid \<Rightarrow> error + (int \<times> int)" where
  "dims grid = (case grid of [] \<Rightarrow> Inl TypeError
                | row0 # _ \<Rightarrow> Inr (int (length grid), int (length row0)))"

section \<open>The binary min-heap\<close>

text \<open>An entry \<^verbatim>\<open>{ prio, node }\<close> is a pair; the heap is the array \<^verbatim>\<open>a\<close>.\<close>

type_synonym 'p entry = "'p \<times> coord"

abbreviation prio :: "'p entry \<Rightarrow> 'p" where "prio \<equiv> fst"
abbreviation node :: "'p entry \<Rightarrow> coord" where "node \<equiv> snd"

definition swap :: "'a list \<Rightarrow> nat \<Rightarrow> nat \<Rightarrow> 'a list" where
  "swap a i j = a[i := a ! j, j := a ! i]"

function up :: "('p::linorder) entry list \<Rightarrow> nat \<Rightarrow> 'p entry list" where
  "up a i =
     (if i > 0 then
        (let p = (i - 1) div 2 in
         if prio (a ! p) \<le> prio (a ! i) then a
         else up (swap a p i) p)
      else a)"
  by pat_completeness auto
termination
  by (relation "measure (\<lambda>(a, i). i)") auto

declare up.simps [simp del]

function down :: "('p::linorder) entry list \<Rightarrow> nat \<Rightarrow> 'p entry list" where
  "down a i =
     (let n = length a; l = i * 2 + 1; r = l + 1;
          m = (if l < n \<and> prio (a ! l) < prio (a ! i) then l else i);
          m = (if r < n \<and> prio (a ! r) < prio (a ! m) then r else m)
      in if m = i then a else down (swap a i m) m)"
  by pat_completeness auto
termination
  by (relation "measure (\<lambda>(a, i). length a - i)") (auto simp: swap_def split: if_splits)

declare down.simps [simp del]

definition push :: "('p::linorder) entry list \<Rightarrow> 'p entry \<Rightarrow> 'p entry list" where
  "push a x = up (a @ [x]) (length a)"

text \<open>\<open>pop\<close> returns \<^verbatim>\<open>null\<close> (here \<open>None\<close>) on the empty heap.\<close>

definition pop :: "('p::linorder) entry list \<Rightarrow> ('p entry \<times> 'p entry list) option" where
  "pop a =
     (if a = [] then None
      else let top = a ! 0; lst = last a; a' = butlast a
           in if a' \<noteq> [] then Some (top, down (a'[0 := lst]) 0) else Some (top, a'))"

section \<open>Path reconstruction\<close>

partial_function (option) reconstruct_loop ::
  "(coord \<rightharpoonup> coord) \<Rightarrow> coord option \<Rightarrow> coord list \<Rightarrow> coord list option" where
  "reconstruct_loop cameFrom cur pth =
     (case cur of None \<Rightarrow> Some pth
      | Some k \<Rightarrow> reconstruct_loop cameFrom (cameFrom k) (pth @ [k]))"

declare reconstruct_loop.simps [code]

definition reconstruct :: "(coord \<rightharpoonup> coord) \<Rightarrow> coord \<Rightarrow> coord list option" where
  "reconstruct cameFrom gkey =
     (if cameFrom gkey = None then Some []
      else map_option rev (reconstruct_loop cameFrom (Some gkey) []))"

section \<open>Dijkstra\<close>

record dstate =
  pq :: "nat entry list"
  dist :: "coord \<rightharpoonup> nat"
  came :: "coord \<rightharpoonup> coord"
  dvisited :: "coord list"

text \<open>The body of the loop over the neighbours of the popped cell \<open>cur\<close>.\<close>

fun drelax :: "grid \<Rightarrow> coord \<Rightarrow> coord list \<Rightarrow> dstate \<Rightarrow> error + dstate" where
  "drelax grid cur [] st = Inr st"
| "drelax grid cur (nb # nbs) st =
     (case cellAt grid nb of
        None \<Rightarrow> Inl TypeError
      | Some cl \<Rightarrow>
          if wall cl then drelax grid cur nbs st
          else
            let w = cellWeight cl;
                alt = the (dist st cur) + w
            in if dist st nb = None \<or> alt < the (dist st nb)
               then drelax grid cur nbs
                      (st\<lparr>dist := (dist st)(nb \<mapsto> alt),
                          came := (came st)(nb \<mapsto> cur),
                          pq := push (pq st) (alt, nb)\<rparr>)
               else drelax grid cur nbs st)"

partial_function (option) dijkstra_loop ::
  "grid \<Rightarrow> int \<Rightarrow> int \<Rightarrow> coord \<Rightarrow> bool \<Rightarrow> dstate \<Rightarrow> (error + dstate) option" where
  "dijkstra_loop grid rows cols goal diag st =
     (if length (pq st) = 0 then Some (Inr st)
      else case pop (pq st) of
        None \<Rightarrow> Some (Inl TypeError)
      | Some (cur, pq') \<Rightarrow>
          if Some (prio cur) \<noteq> dist st (node cur)
          then dijkstra_loop grid rows cols goal diag (st\<lparr>pq := pq'\<rparr>)
          else
            let st1 = st\<lparr>pq := pq', dvisited := dvisited st @ [node cur]\<rparr>
            in if node cur = goal then Some (Inr st1)
               else (case drelax grid (node cur)
                            (neighbors (fst (node cur)) (snd (node cur)) rows cols diag) st1 of
                       Inl e \<Rightarrow> Some (Inl e)
                     | Inr st2 \<Rightarrow> dijkstra_loop grid rows cols goal diag st2))"

declare dijkstra_loop.simps [code]

definition runDijkstra ::
  "grid \<Rightarrow> coord \<Rightarrow> coord \<Rightarrow> bool \<Rightarrow> (error + planning_result) option" where
  "runDijkstra grid start goal diag =
     (case dims grid of
        Inl e \<Rightarrow> Some (Inl e)
      | Inr (rows, cols) \<Rightarrow>
          (case dijkstra_loop grid rows cols goal diag
                  \<lparr>pq = push [] (0, start), dist = [start \<mapsto> 0], came = Map.empty,
                   dvisited = []\<rparr> of
             None \<Rightarrow> None
           | Some (Inl e) \<Rightarrow> Some (Inl e)
           | Some (Inr st) \<Rightarrow>
               (case reconstruct (came st) goal of
                  None \<Rightarrow> None
                | Some p \<Rightarrow> Some (Inr \<lparr>visited = dvisited st, path = p\<rparr>))))"

section \<open>A*\<close>

text \<open>
  The heuristic \<^verbatim>\<open>(diag ? euclid : manhattan)\<close> is the argument \<open>h\<close> of the loop;
  \<open>runAStar\<close> selects it.
\<close>

record astate =
  apq :: "real entry list"
  gsc :: "coord \<rightharpoonup> nat"
  fsc :: "coord \<rightharpoonup> real"
  acame :: "coord \<rightharpoonup> coord"
  avisited :: "coord list"

fun arelax ::
  "(coord \<Rightarrow> coord \<Rightarrow> real) \<Rightarrow> grid \<Rightarrow> coord \<Rightarrow> coord \<Rightarrow> coord list \<Rightarrow> astate
     \<Rightarrow> error + astate" where
  "arelax h grid goal cur [] st = Inr st"
| "arelax h grid goal cur (nb # nbs) st =
     (case cellAt grid nb of
        None \<Rightarrow> Inl TypeError
      | Some cl \<Rightarrow>
          if wall cl then arelax h grid goal cur nbs st
          else
            let w = cellWeight cl;
                tentative = the (gsc st cur) + w
            in if gsc st nb = None \<or> tentative < the (gsc st nb)
               then arelax h grid goal cur nbs
                      (st\<lparr>gsc := (gsc st)(nb \<mapsto> tentative),
                          fsc := (fsc st)(nb \<mapsto> real tentative + h nb goal),
                          acame := (acame st)(nb \<mapsto> cur),
                          apq := push (apq st) (real tentative + h nb goal, nb)\<rparr>)
               else arelax h grid goal cur nbs st)"

partial_function (option) astar_loop ::
  "(coord \<Rightarrow> coord \<Rightarrow> real) \<Rightarrow> grid \<Rightarrow> int \<Rightarrow> int \<Rightarrow> coord \<Rightarrow> bool \<Rightarrow> astate
     \<Rightarrow> (error + astate) option" where
  "astar_loop h grid rows cols goal diag st =
     (if length (apq st) = 0 then Some (Inr st)
      else case pop (apq st) of
        None \<Rightarrow> Some (Inl TypeError)
      | Some (cur, pq') \<Rightarrow>
          if Some (prio cur) \<noteq> fsc st (node cur)
          then astar_loop h grid rows cols goal diag (st\<lparr>apq := pq'\<rparr>)
          else
            let st1 = st\<lparr>apq := pq', avisited := avisited st @ [node cur]\<rparr>
            in if node cur = goal then Some (Inr st1)
               else (case arelax h grid goal (node cur)
                            (neighbors (fst (node cur)) (snd (node cur)) rows cols diag) st1 of
                       Inl e \<Rightarrow> Some (Inl e)
                     | Inr st2 \<Rightarrow> astar_loop h grid rows cols goal diag st2))"

declare astar_loop.simps [code]

definition runAStar ::
  "grid \<Rightarrow> coord \<Rightarrow> coord \<Rightarrow> bool \<Rightarrow> (error + planning_result) option" where
  "runAStar grid start goal diag =
     (case dims grid of
        Inl e \<Rightarrow> Some (Inl e)
      | Inr (rows, cols) \<Rightarrow>
          (let h = (if diag then euclid else manhattan) in
           case astar_loop h grid rows cols goal diag
                  \<lparr>apq = push [] (h start goal, start), gsc = [start \<mapsto> 0],
                   fsc = [start \<mapsto> h start goal], acame = Map.empty, avisited = []\<rparr> of
             None \<Rightarrow> None
           | Some (Inl e) \<Rightarrow> Some (Inl e)
           | Some (Inr st) \<Rightarrow>
               (case reconstruct (acame st) goal of
                  None \<Rightarrow> None
                | Some p \<Rightarrow> Some (Inr \<lparr>visited = avisited st, path = p\<rparr>))))"

section \<open>RRT*\<close>

text \<open>
  A tree node \<^verbatim>\<open>{ r, c, parent, cost }\<close>; \<open>pt\<close> is the pair \<^verbatim>\<open>(r, c)\<close> and
  \<open>parent = -1\<close> marks the root. The options object has optional fields, read with
  \<^verbatim>\<open>??\<close>. \<^verbatim>\<open>Math.random\<close> is the stream \<open>rnd\<close>, read at a running index.
\<close>

record tnode =
  pt :: coord
  parent :: int
  cost :: real

record opts =
  iterations :: "nat option"
  radius :: "real option"
  step :: "real option"
  goalBias :: "real option"

record rstate =
  nodes :: "tnode list"
  rvisited :: "coord list"
  goalIndex :: int
  rk :: nat

definition isFree :: "grid \<Rightarrow> int \<Rightarrow> int \<Rightarrow> coord \<Rightarrow> error + bool" where
  "isFree grid rows cols p =
     (if inBounds (fst p) (snd p) rows cols
      then (case cellAt grid p of None \<Rightarrow> Inl TypeError | Some cl \<Rightarrow> Inr (\<not> wall cl))
      else Inr False)"

text \<open>
  The walk of \<^verbatim>\<open>lineFree\<close>: \<open>b = (x1, y1)\<close> is the target, \<open>(dx, dy)\<close> and \<open>(sx, sy)\<close>
  are the constants computed before the loop, \<open>(x0, y0)\<close> and \<open>err\<close> are the variables.
\<close>

partial_function (option) lineFree_loop ::
  "grid \<Rightarrow> int \<Rightarrow> int \<Rightarrow> coord \<Rightarrow> int \<times> int \<Rightarrow> int \<times> int \<Rightarrow> coord \<Rightarrow> int
     \<Rightarrow> (error + bool) option" where
  "lineFree_loop grid rows cols b d s p err =
     (case isFree grid rows cols p of
        Inl e \<Rightarrow> Some (Inl e)
      | Inr fr \<Rightarrow>
          if \<not> fr then Some (Inr False)
          else if fst p = fst b \<and> snd p = snd b then Some (Inr True)
          else
            let e2 = err * 2;
                (err1, x0) = (if e2 > - snd d then (err - snd d, fst p + fst s)
                              else (err, fst p));
                (err2, y0) = (if e2 < fst d then (err1 + fst d, snd p + snd s)
                              else (err1, snd p))
            in lineFree_loop grid rows cols b d s (x0, y0) err2)"

declare lineFree_loop.simps [code]

definition lineFree :: "grid \<Rightarrow> int \<Rightarrow> int \<Rightarrow> coord \<Rightarrow> coord \<Rightarrow> (error + bool) option" where
  "lineFree grid rows cols a b =
     (let dx = \<bar>fst b - fst a\<bar>;
          dy = \<bar>snd b - snd a\<bar>;
          sx = (if fst a < fst b then 1 else -1);
          sy = (if snd a < snd b then 1 else -1)
      in lineFree_loop grid rows cols b (dx, dy) (sx, sy) a (dx - dy))"

text \<open>\<open>bestD = None\<close> is \<^verbatim>\<open>Infinity\<close>.\<close>

fun nearest_loop :: "coord \<Rightarrow> tnode list \<Rightarrow> nat \<Rightarrow> nat \<Rightarrow> real option \<Rightarrow> nat" where
  "nearest_loop p [] i best bestD = best"
| "nearest_loop p (n # ns) i best bestD =
     (let d = euclid p (pt n)
      in if (case bestD of None \<Rightarrow> True | Some bd \<Rightarrow> d < bd)
         then nearest_loop p ns (i + 1) i (Some d)
         else nearest_loop p ns (i + 1) best bestD)"

definition nearest :: "tnode list \<Rightarrow> coord \<Rightarrow> nat" where
  "nearest ns p = nearest_loop p ns 0 0 None"

text \<open>\<^verbatim>\<open>Math.round\<close> rounds half up.\<close>

definition js_round :: "real \<Rightarrow> int" where
  "js_round x = \<lfloor>x + 1 / 2\<rfloor>"

definition steer :: "real \<Rightarrow> coord \<Rightarrow> coord \<Rightarrow> coord" where
  "steer stp from to =
     (let d = euclid from to
      in if d \<le> stp then to
         else let t = stp / d
              in (js_round (real_of_int (fst from) + real_of_int (fst to - fst from) * t),
                  js_round (real_of_int (snd from) + real_of_int (snd to - snd from) * t)))"

text \<open>The rewiring loop, over the indices \<open>j\<close> below the new node's.\<close>

fun rewire ::
  "grid \<Rightarrow> int \<Rightarrow> int \<Rightarrow> real \<Rightarrow> tnode \<Rightarrow> nat \<Rightarrow> nat list \<Rightarrow> tnode list
     \<Rightarrow> (error + tnode list) option" where
  "rewire grid rows cols rad nd newIndex [] ns = Some (Inr ns)"
| "rewire grid rows cols rad nd newIndex (j # js) ns =
     (let nbh = ns ! j in
      if euclid (pt nbh) (pt nd) \<le> rad then
        (case lineFree grid rows cols (pt nd) (pt nbh) of
           None \<Rightarrow> None
         | Some (Inl e) \<Rightarrow> Some (Inl e)
         | Some (Inr False) \<Rightarrow> rewire grid rows cols rad nd newIndex js ns
         | Some (Inr True) \<Rightarrow>
             (case cellAt grid (pt nbh) of
                None \<Rightarrow> Some (Inl TypeError)
              | Some cl \<Rightarrow>
                  let wj = cellWeight cl;
                      alt = cost nd + real wj * euclid (pt nd) (pt nbh)
                  in if alt < cost nbh
                     then rewire grid rows cols rad nd newIndex js
                            (ns[j := nbh\<lparr>cost := alt, parent := int newIndex\<rparr>])
                     else rewire grid rows cols rad nd newIndex js ns))
      else rewire grid rows cols rad nd newIndex js ns)"

text \<open>One run of the sampling loop with \<open>n\<close> iterations left.\<close>

fun rrt_loop ::
  "(nat \<Rightarrow> real) \<Rightarrow> grid \<Rightarrow> int \<Rightarrow> int \<Rightarrow> coord \<Rightarrow> real \<Rightarrow> real \<Rightarrow> real \<Rightarrow> nat \<Rightarrow> rstate
     \<Rightarrow> (error + rstate) option" where
  "rrt_loop rnd grid rows cols goal rad stp bias 0 st = Some (Inr st)"
| "rrt_loop rnd grid rows cols goal rad stp bias (Suc n) st =
     (let (sample, k') =
            (if rnd (rk st) < bias then (goal, rk st + 1)
             else ((\<lfloor>rnd (rk st + 1) * real_of_int rows\<rfloor>,
                    \<lfloor>rnd (rk st + 2) * real_of_int cols\<rfloor>), rk st + 3));
          st = st\<lparr>rk := k'\<rparr>
      in case isFree grid rows cols sample of
           Inl e \<Rightarrow> Some (Inl e)
         | Inr False \<Rightarrow> rrt_loop rnd grid rows cols goal rad stp bias n st
         | Inr True \<Rightarrow>
             let ni = nearest (nodes st) sample;
                 newPt = steer stp (pt (nodes st ! ni)) sample
             in (case isFree grid rows cols newPt of
                   Inl e \<Rightarrow> Some (Inl e)
                 | Inr False \<Rightarrow> rrt_loop rnd grid rows cols goal rad stp bias n st
                 | Inr True \<Rightarrow>
                   (case lineFree grid rows cols (pt (nodes st ! ni)) newPt of
                      None \<Rightarrow> None
                    | Some (Inl e) \<Rightarrow> Some (Inl e)
                    | Some (Inr False) \<Rightarrow> rrt_loop rnd grid rows cols goal rad stp bias n st
                    | Some (Inr True) \<Rightarrow>
                      (case cellAt grid newPt of
                         None \<Rightarrow> Some (Inl TypeError)
                       | Some cl \<Rightarrow>
                         let w = cellWeight cl;
                             newCost = cost (nodes st ! ni)
                                       + real w * euclid (pt (nodes st ! ni)) newPt;
                             nd = \<lparr>pt = newPt, parent = int ni, cost = newCost\<rparr>;
                             newIndex = length (nodes st);
                             ns1 = nodes st @ [nd];
                             vis1 = rvisited st @ [pt nd]
                         in (case rewire grid rows cols rad nd newIndex [0..<length ns1 - 1] ns1 of
                               None \<Rightarrow> None
                             | Some (Inl e) \<Rightarrow> Some (Inl e)
                             | Some (Inr ns2) \<Rightarrow>
                               if euclid (pt nd) goal \<le> stp then
                                 (case lineFree grid rows cols (pt nd) goal of
                                    None \<Rightarrow> None
                                  | Some (Inl e) \<Rightarrow> Some (Inl e)
                                  | Some (Inr True) \<Rightarrow>
                                      Some (Inr (st\<lparr>nodes := ns2 @ [\<lparr>pt = goal,
                                                     parent = int newIndex, cost = cost nd\<rparr>],
                                                   rvisited := vis1,
                                                   goalIndex := int (length ns2)\<rparr>))
                                  | Some (Inr False) \<Rightarrow>
                                      rrt_loop rnd grid rows cols goal rad stp bias n
                                        (st\<lparr>nodes := ns2, rvisited := vis1\<rparr>))
                               else rrt_loop rnd grid rows cols goal rad stp bias n
                                      (st\<lparr>nodes := ns2, rvisited := vis1\<rparr>))))))"

text \<open>The parent walk from the goal node; \<^verbatim>\<open>nodes[cur]\<close> past the end raises.\<close>

partial_function (option) rrt_path_loop ::
  "tnode list \<Rightarrow> int \<Rightarrow> coord list \<Rightarrow> (error + coord list) option" where
  "rrt_path_loop ns cur pth =
     (if cur \<noteq> -1 then
        (if 0 \<le> cur \<and> nat cur < length ns
         then rrt_path_loop ns (parent (ns ! nat cur)) (pth @ [pt (ns ! nat cur)])
         else Some (Inl TypeError))
      else Some (Inr pth))"

declare rrt_path_loop.simps [code]

definition runRRTStar ::
  "(nat \<Rightarrow> real) \<Rightarrow> grid \<Rightarrow> coord \<Rightarrow> coord \<Rightarrow> opts \<Rightarrow> (error + planning_result) option" where
  "runRRTStar rnd grid start goal os =
     (case dims grid of
        Inl e \<Rightarrow> Some (Inl e)
      | Inr (rows, cols) \<Rightarrow>
          (let its = (case iterations os of None \<Rightarrow> 1500 | Some v \<Rightarrow> v);
               rad = (case radius os of None \<Rightarrow> 4 | Some v \<Rightarrow> v);
               stp = (case step os of None \<Rightarrow> 2 | Some v \<Rightarrow> v);
               bias = (case goalBias os of None \<Rightarrow> 8 / 100 | Some v \<Rightarrow> v)
           in case rrt_loop rnd grid rows cols goal rad stp bias its
                     \<lparr>nodes = [\<lparr>pt = start, parent = -1, cost = 0\<rparr>], rvisited = [start],
                      goalIndex = -1, rk = 0\<rparr> of
                None \<Rightarrow> None
              | Some (Inl e) \<Rightarrow> Some (Inl e)
              | Some (Inr st) \<Rightarrow>
                  if goalIndex st \<noteq> -1 then
                    (case rrt_path_loop (nodes st) (goalIndex st) [] of
                       None \<Rightarrow> None
                     | Some (Inl e) \<Rightarrow> Some (Inl e)
                     | Some (Inr p) \<Rightarrow> Some (Inr \<lparr>visited = rvisited st, path = rev p\<rparr>))
                  else Some (Inr \<lparr>visited = rvisited st, path = []\<rparr>)))"

section \<open>Notions used in the statements\<close>

text \<open>The update of one neighbour \<open>nb\<close> in the loop body of A*, with tentative cost \<open>t\<close>.\<close>

definition aimprove ::
  "(coord \<Rightarrow> coord \<Rightarrow> real) \<Rightarrow> coord \<Rightarrow> coord \<Rightarrow> coord \<Rightarrow> nat \<Rightarrow> astate \<Rightarrow> astate" where
  "aimprove h goal cur nb t st =
     st\<lparr>gsc := (gsc st)(nb \<mapsto> t),
        fsc := (fsc st)(nb \<mapsto> real t + h nb goal),
        acame := (acame st)(nb \<mapsto> cur),
        apq := push (apq st) (real t + h nb goal, nb)\<rparr>"

text \<open>Adjacency under the connectivity setting, and the cells a search may enter.\<close>

definition adjacent :: "bool \<Rightarrow> coord \<Rightarrow> coord \<Rightarrow> bool" where
  "adjacent diag a b \<longleftrightarrow>
     (fst b - fst a, snd b - snd a) \<in> set (if diag then DIRS8 else DIRS4)"

definition freeCell :: "grid \<Rightarrow> coord \<Rightarrow> bool" where
  "freeCell grid p \<longleftrightarrow> (\<exists>cl. cellAt grid p = Some cl \<and> \<not> wall cl)"

definition edge :: "grid \<Rightarrow> int \<Rightarrow> int \<Rightarrow> bool \<Rightarrow> coord \<Rightarrow> coord \<Rightarrow> bool" where
  "edge grid rows cols diag p k \<longleftrightarrow>
     k \<in> set (neighbors (fst p) (snd p) rows cols diag) \<and> freeCell grid k"

definition wt :: "grid \<Rightarrow> coord \<Rightarrow> nat" where
  "wt grid k = (case cellAt grid k of None \<Rightarrow> 0 | Some cl \<Rightarrow> cellWeight cl)"

text \<open>A key whose chain of predecessors ends.\<close>

inductive rooted :: "(coord \<rightharpoonup> coord) \<Rightarrow> coord \<Rightarrow> bool" for cf where
  root: "cf k = None \<Longrightarrow> rooted cf k"
| step: "cf k = Some p \<Longrightarrow> rooted cf p \<Longrightarrow> rooted cf k"

text \<open>
  The invariant of the A* loop on the predecessor map: every recorded predecessor is joined
  to its cell by an edge of the grid graph and has a cost smaller by at least the weight of
  the cell, predecessor chains end, and the start has cost 0 and no predecessor.
\<close>

definition ainv :: "grid \<Rightarrow> int \<Rightarrow> int \<Rightarrow> bool \<Rightarrow> coord \<Rightarrow> astate \<Rightarrow> bool" where
  "ainv grid rows cols diag start s \<longleftrightarrow>
     (\<forall>k p. acame s k = Some p \<longrightarrow>
        edge grid rows cols diag p k \<and>
        (\<exists>dk dp. gsc s k = Some dk \<and> gsc s p = Some dp \<and> dp + wt grid k \<le> dk))
     \<and> (\<forall>k. rooted (acame s) k)
     \<and> gsc s start = Some 0 \<and> acame s start = None
     \<and> (\<forall>k. gsc s k \<noteq> None \<longrightarrow> k \<noteq> start \<longrightarrow> acame s k \<noteq> None)"

text \<open>
  Every cell with a priority has been expanded or has an entry with that priority in the
  queue; before the first expansion the queue holds the start alone.
\<close>

definition alive :: "coord \<Rightarrow> astate \<Rightarrow> bool" where
  "alive start s \<longleftrightarrow>
     (\<forall>k. (fsc s k = None) = (gsc s k = None))
     \<and> (\<forall>k f. fsc s k = Some f \<longrightarrow> k \<in> set (avisited s) \<or> (f, k) \<in> set (apq s))
     \<and> (avisited s = [] \<longrightarrow> (\<exists>f. apq s = [(f, start)] \<and> fsc s start = Some f))
     \<and> (avisited s \<noteq> [] \<longrightarrow> hd (avisited s) = start)"

text \<open>The list of keys from \<open>k\<close> along the predecessors to the end of the chain.\<close>

inductive chain :: "(coord \<rightharpoonup> coord) \<Rightarrow> coord \<Rightarrow> coord list \<Rightarrow> bool" for cf where
  last: "cf k = None \<Longrightarrow> chain cf k [k]"
| link: "cf k = Some p \<Longrightarrow> chain cf p ks \<Longrightarrow> chain cf k (k # ks)"

text \<open>\<open>runAStar\<close> for an arbitrary heuristic \<open>h\<close>.\<close>

definition astar_init :: "(coord \<Rightarrow> coord \<Rightarrow> real) \<Rightarrow> coord \<Rightarrow> coord \<Rightarrow> astate" where
  "astar_init h start goal =
     \<lparr>apq = push [] (h start goal, start), gsc = [start \<mapsto> 0],
      fsc = [start \<mapsto> h start goal], acame = Map.empty, avisited = []\<rparr>"

definition astar_run ::
  "(coord \<Rightarrow> coord \<Rightarrow> real) \<Rightarrow> grid \<Rightarrow> coord \<Rightarrow> coord \<Rightarrow> bool
     \<Rightarrow> (error + planning_result) option" where
  "astar_run h grid start goal diag =
     (case dims grid of
        Inl e \<Rightarrow> Some (Inl e)
      | Inr (rows, cols) \<Rightarrow>
          (case astar_loop h grid rows cols goal diag (astar_init h start goal) of
             None \<Rightarrow> None
           | Some (Inl e) \<Rightarrow> Some (Inl e)
           | Some (Inr st) \<Rightarrow>
               (case reconstruct (acame st) goal of
                  None \<Rightarrow> None
                | Some p \<Rightarrow> Some (Inr \<lparr>visited = avisited st, path = p\<rparr>))))"

text \<open>
  The measure of the search loops: the costs of the cells of the grid, each only ever
  lowered (an absent cost counts as infinite), and then the length of the queue.
\<close>

definition gridCells :: "int \<Rightarrow> int \<Rightarrow> coord list" where
  "gridCells rows cols = concat (map (\<lambda>r. map (\<lambda>c. (r, c)) [0..cols - 1]) [0..rows - 1])"

definition costRank :: "nat option \<Rightarrow> enat" where
  "costRank d = (case d of None \<Rightarrow> \<infinity> | Some x \<Rightarrow> enat x)"

definition astar_rel :: "int \<Rightarrow> int \<Rightarrow> (astate \<times> astate) set" where
  "astar_rel rows cols =
     inv_image (lex {(a, b). a < b} <*lex*> less_than)
       (\<lambda>s. (map (\<lambda>k. costRank (gsc s k)) (gridCells rows cols), length (apq s)))"

text \<open>A rectangular grid: every row has the length of the first.\<close>

definition rect :: "grid \<Rightarrow> bool" where
  "rect grid \<longleftrightarrow> (\<forall>row \<in> set grid. length row = length (hd grid))"

text \<open>
  A state of Dijkstra seen as a state of A* with the zero heuristic: the priority of a cell
  is its distance.
\<close>

definition rprio :: "nat entry \<Rightarrow> real entry" where
  "rprio e = (real (prio e), node e)"

definition d2a :: "dstate \<Rightarrow> astate" where
  "d2a st = \<lparr>apq = map rprio (pq st), gsc = dist st,
             fsc = (\<lambda>k. map_option real (dist st k)), acame = came st,
             avisited = dvisited st\<rparr>"

text \<open>
  The rasterisation of the segment from \<open>a\<close> to \<open>b\<close> in closed form: one cell for each
  step along the longer axis, at the nearest position on the other axis (a tie goes to
  the side of \<open>a\<close>).
\<close>

definition bresenham :: "coord \<Rightarrow> coord \<Rightarrow> coord list" where
  "bresenham a b =
     (let dx = \<bar>fst b - fst a\<bar>;
          dy = \<bar>snd b - snd a\<bar>;
          sx = (if fst a < fst b then 1 else -1);
          sy = (if snd a < snd b then 1 else -1)
      in if dx = 0 \<and> dy = 0 then [a]
         else if dy \<le> dx
         then map (\<lambda>k. (fst a + sx * k, snd a + sy * ((2 * k * dy + dx - 1) div (2 * dx))))
                [0..dx]
         else map (\<lambda>k. (fst a + sx * ((2 * k * dx + dy - 1) div (2 * dy)), snd a + sy * k))
                [0..dy])"

text \<open>The cells of a list tested in order, stopping at the first that is not free.\<close>

fun allFree :: "grid \<Rightarrow> int \<Rightarrow> int \<Rightarrow> coord list \<Rightarrow> error + bool" where
  "allFree grid rows cols [] = Inr True"
| "allFree grid rows cols (p # ps) =
     (case isFree grid rows cols p of
        Inl e \<Rightarrow> Inl e
      | Inr fr \<Rightarrow> if fr then allFree grid rows cols ps else Inr False)"

text \<open>
  The tree of RRT*. An index is anchored when the walk along the parent indices from it ends
  at \<open>-1\<close>. A node is linked when it is a root or its parent is a node of the tree, joined
  to it by a collision-free line, whose stored cost plus the cost of the edge (the weight
  of the node's cell times the Euclidean length) is at most the node's stored cost.
\<close>

inductive anchored :: "tnode list \<Rightarrow> int \<Rightarrow> bool" for ns where
  none: "anchored ns (-1)"
| node: "0 \<le> i \<Longrightarrow> nat i < length ns \<Longrightarrow> anchored ns (parent (ns ! nat i)) \<Longrightarrow> anchored ns i"

definition linked :: "grid \<Rightarrow> int \<Rightarrow> int \<Rightarrow> tnode list \<Rightarrow> tnode \<Rightarrow> bool" where
  "linked grid rows cols ns n \<longleftrightarrow>
     parent n = -1 \<or>
     (0 \<le> parent n \<and> nat (parent n) < length ns
      \<and> cost (ns ! nat (parent n))
          + real (wt grid (pt n)) * euclid (pt (ns ! nat (parent n))) (pt n) \<le> cost n
      \<and> lineFree grid rows cols (pt (ns ! nat (parent n))) (pt n) = Some (Inr True))"

definition rinv :: "grid \<Rightarrow> int \<Rightarrow> int \<Rightarrow> coord \<Rightarrow> tnode list \<Rightarrow> bool" where
  "rinv grid rows cols start ns \<longleftrightarrow>
     ns \<noteq> [] \<and> pt (ns ! 0) = start \<and> parent (ns ! 0) = -1 \<and> cost (ns ! 0) = 0
     \<and> (\<forall>i < length ns. 0 \<le> cost (ns ! i) \<and> anchored ns (int i)
            \<and> linked grid rows cols ns (ns ! i) \<and> (0 < i \<longrightarrow> parent (ns ! i) \<noteq> -1))"


text \<open>The initial state of \<open>runRRTStar\<close> and its options with their defaults.\<close>

definition rrt_init :: "coord \<Rightarrow> rstate" where
  "rrt_init start =
     \<lparr>nodes = [\<lparr>pt = start, parent = -1, cost = 0\<rparr>], rvisited = [start],
      goalIndex = -1, rk = 0\<rparr>"

definition opt_iterations :: "opts \<Rightarrow> nat" where
  "opt_iterations os = (case iterations os of None \<Rightarrow> 1500 | Some v \<Rightarrow> v)"

definition opt_radius :: "opts \<Rightarrow> real" where
  "opt_radius os = (case radius os of None \<Rightarrow> 4 | Some v \<Rightarrow> v)"

definition opt_step :: "opts \<Rightarrow> real" where
  "opt_step os = (case step os of None \<Rightarrow> 2 | Some v \<Rightarrow> v)"

definition opt_goalBias :: "opts \<Rightarrow> real" where
  "opt_goalBias os = (case goalBias os of None \<Rightarrow> 8 / 100 | Some v \<Rightarrow> v)"

text \<open>
  A run used below: one row of eight free cells, the third of weight 10 and the others of
  weight 2, and the answers of \<^verbatim>\<open>Math.random\<close> that sample the cells \<open>(0, 2)\<close>, \<open>(0, 3)\<close>
  and \<open>(0, 1)\<close> in this order.
\<close>

abbreviation (input) c2 :: cell where "c2 \<equiv> \<lparr>wall = False, weight = Some 2\<rparr>"
abbreviation (input) c10 :: cell where "c10 \<equiv> \<lparr>wall = False, weight = Some 10\<rparr>"
abbreviation (input) row8 :: grid where "row8 \<equiv> [[c2, c2, c10, c2, c2, c2, c2, c2]]"
abbreviation (input) rnd8 :: "nat \<Rightarrow> real" where
  "rnd8 \<equiv> (\<lambda>k. [1/2, 0, 1/4, 1/2, 0, 3/8, 1/2, 0, 1/8] ! k)"

text \<open>The state at the end of that run: the node \<open>(0, 2)\<close> has been re-parented.\<close>

abbreviation (input) st8 :: rstate where
  "st8 \<equiv> \<lparr>nodes = [\<lparr>pt = (0, 0), parent = -1, cost = 0\<rparr>,
                    \<lparr>pt = (0, 2), parent = 3, cost = 12\<rparr>,
                    \<lparr>pt = (0, 3), parent = 1, cost = 22\<rparr>,
                    \<lparr>pt = (0, 1), parent = 0, cost = 2\<rparr>],
           rvisited = [(0, 0), (0, 2), (0, 3), (0, 1)], goalIndex = -1, rk = 9\<rparr>"

text \<open>A row of three free cells, and the options the page passes to \<open>runRRTStar\<close>.\<close>

abbreviation (input) row3 :: grid where "row3 \<equiv> [[c2, c2, c2]]"

abbreviation (input) page_opts :: opts where
  "page_opts \<equiv> \<lparr>iterations = Some 2500, radius = Some 4, step = Some 2, goalBias = None\<rparr>"

text \<open>The order of a binary heap: no entry has a smaller priority than its parent.\<close>

definition heap :: "('p::linorder) entry list \<Rightarrow> bool" where
  "heap a \<longleftrightarrow> (\<forall>j < length a. 0 < j \<longrightarrow> prio (a ! ((j - 1) div 2)) \<le> prio (a ! j))"

text \<open>
  A cell \<open>k\<close> with cost \<open>g\<close> is relaxed when every cell that an edge of the grid graph
  enters from \<open>k\<close> has a cost of at most \<open>g\<close> plus its weight. The invariant of the A* loop
  behind the optimality of the result: the queue is a heap, the priority of a cell is its
  cost plus the heuristic, and every cell with a cost has an entry with its current
  priority in the queue or is relaxed.
\<close>

definition relaxed :: "grid \<Rightarrow> int \<Rightarrow> int \<Rightarrow> bool \<Rightarrow> astate \<Rightarrow> coord \<Rightarrow> nat \<Rightarrow> bool" where
  "relaxed grid rows cols diag s k g \<longleftrightarrow>
     (\<forall>nb. edge grid rows cols diag k nb \<longrightarrow> (\<exists>gn. gsc s nb = Some gn \<and> gn \<le> g + wt grid nb))"

definition oinv ::
  "(coord \<Rightarrow> coord \<Rightarrow> real) \<Rightarrow> grid \<Rightarrow> int \<Rightarrow> int \<Rightarrow> bool \<Rightarrow> coord \<Rightarrow> astate \<Rightarrow> bool" where
  "oinv h grid rows cols diag goal s \<longleftrightarrow>
     heap (apq s)
     \<and> (\<forall>k. fsc s k = map_option (\<lambda>g. real g + h k goal) (gsc s k))
     \<and> (\<forall>k g. gsc s k = Some g \<longrightarrow>
          (real g + h k goal, k) \<in> set (apq s) \<or> relaxed grid rows cols diag s k g)"

text \<open>The cost of a path: the sum of the weights of the cells it enters.\<close>

definition pathCost :: "grid \<Rightarrow> coord list \<Rightarrow> nat" where
  "pathCost grid p = sum_list (map (wt grid) (tl p))"

(*DEFS-END*)

section \<open>Evaluation of concrete runs\<close>

lemma euclid_same: "euclid a a = 0"
  by (simp add: euclid_def)

lemma one_cell_lineFree:
  "lineFree [[\<lparr>wall = False, weight = w\<rparr>]] 1 1 (0, 0) (0, 0) = Some (Inr True)"
  by (simp add: lineFree_def lineFree_loop.simps isFree_def inBounds_def cellAt_def)

lemma one_cell_rrt_loop:
  "0 < n \<Longrightarrow> 0 < bias \<Longrightarrow> 0 \<le> stp \<Longrightarrow> 0 \<le> rad \<Longrightarrow>
   rrt_loop (\<lambda>_. 0) [[\<lparr>wall = False, weight = w\<rparr>]] 1 1 (0, 0) rad stp bias n
     \<lparr>nodes = [\<lparr>pt = (0, 0), parent = - 1, cost = 0\<rparr>], rvisited = [(0, 0)],
      goalIndex = - 1, rk = 0\<rparr>
   = Some (Inr \<lparr>nodes = [\<lparr>pt = (0, 0), parent = - 1, cost = 0\<rparr>,
                           \<lparr>pt = (0, 0), parent = 0, cost = 0\<rparr>,
                           \<lparr>pt = (0, 0), parent = 1, cost = 0\<rparr>],
                  rvisited = [(0, 0), (0, 0)], goalIndex = 2, rk = 1\<rparr>)"
  by (cases n) (simp_all add: one_cell_lineFree isFree_def inBounds_def cellAt_def nearest_def
      steer_def cellWeight_def euclid_same Let_def)

section \<open>Start equal to goal\<close>

text \<open>
  C3. When start and goal are the same free cell, the path should be that one cell and the
  visited sequence should begin with it. On the one-cell grid the visited sequences do begin
  with the cell, but Dijkstra and A* return the empty path (the early return of
  \<open>reconstruct\<close> for a goal without predecessor, the signal of an unreachable goal), and
  RRT* returns the cell three times (root, inserted node, goal node).
\<close>

theorem start_equals_goal_paths:
  "runDijkstra [[\<lparr>wall = False, weight = Some 1\<rparr>]] (0, 0) (0, 0) False
     = Some (Inr \<lparr>visited = [(0, 0)], path = []\<rparr>)
   \<and> runAStar [[\<lparr>wall = False, weight = Some 1\<rparr>]] (0, 0) (0, 0) False
     = Some (Inr \<lparr>visited = [(0, 0)], path = []\<rparr>)
   \<and> runRRTStar (\<lambda>_. 0) [[\<lparr>wall = False, weight = Some 1\<rparr>]] (0, 0) (0, 0)
       \<lparr>iterations = Some 2500, radius = Some 4, step = Some 2, goalBias = None\<rparr>
     = Some (Inr \<lparr>visited = [(0, 0), (0, 0)], path = [(0, 0), (0, 0), (0, 0)]\<rparr>)"
proof (intro conjI)
  show "runDijkstra [[\<lparr>wall = False, weight = Some 1\<rparr>]] (0, 0) (0, 0) False
     = Some (Inr \<lparr>visited = [(0, 0)], path = []\<rparr>)"
    by code_simp
  show "runAStar [[\<lparr>wall = False, weight = Some 1\<rparr>]] (0, 0) (0, 0) False
     = Some (Inr \<lparr>visited = [(0, 0)], path = []\<rparr>)"
    by code_simp
  show "runRRTStar (\<lambda>_. 0) [[\<lparr>wall = False, weight = Some 1\<rparr>]] (0, 0) (0, 0)
       \<lparr>iterations = Some 2500, radius = Some 4, step = Some 2, goalBias = None\<rparr>
     = Some (Inr \<lparr>visited = [(0, 0), (0, 0)], path = [(0, 0), (0, 0), (0, 0)]\<rparr>)"
    by (simp add: runRRTStar_def dims_def one_cell_rrt_loop rrt_path_loop.simps
          del: rrt_loop.simps)
qed

section \<open>Heap contents\<close>

lemma length_swap [simp]: "length (swap a i j) = length a"
  by (simp add: swap_def)

lemma mset_swap_heap: "i < length a \<Longrightarrow> j < length a \<Longrightarrow> mset (swap a i j) = mset a"
  unfolding swap_def by (simp add: mset_swap)

lemma up_step:
  "up a i = a \<or> (0 < i \<and> up a i = up (swap a ((i - 1) div 2) i) ((i - 1) div 2))"
proof -
  have e: "up a i = (if i > 0 then
        (let p = (i - 1) div 2 in
         if prio (a ! p) \<le> prio (a ! i) then a
         else up (swap a p i) p)
      else a)" by (rule up.simps)
  show ?thesis unfolding e by (simp add: Let_def)
qed

lemma mset_up: "i < length a \<Longrightarrow> mset (up a i) = mset a"
proof (induction i arbitrary: a rule: less_induct)
  case (less i)
  from up_step[of a i] show ?case
  proof
    assume "up a i = a" then show ?thesis by simp
  next
    assume s: "0 < i \<and> up a i = up (swap a ((i - 1) div 2) i) ((i - 1) div 2)"
    then have lt: "(i - 1) div 2 < i" by auto
    with less.prems have "mset (up (swap a ((i - 1) div 2) i) ((i - 1) div 2))
        = mset (swap a ((i - 1) div 2) i)"
      by (intro less.IH) auto
    with s lt less.prems show ?thesis by (simp add: mset_swap_heap)
  qed
qed

lemma down_step:
  "down a i = a \<or> (\<exists>m. m < length a \<and> i < m \<and> down a i = down (swap a i m) m)"
proof -
  have e: "down a i = (let n = length a; l = i * 2 + 1; r = l + 1;
          m = (if l < n \<and> prio (a ! l) < prio (a ! i) then l else i);
          m = (if r < n \<and> prio (a ! r) < prio (a ! m) then r else m)
      in if m = i then a else down (swap a i m) m)" by (rule down.simps)
  show ?thesis unfolding e by (auto simp: Let_def)
qed

lemma mset_down: "mset (down a i) = mset a"
proof (induction "length a - i" arbitrary: a i rule: less_induct)
  case less
  from down_step[of a i] show ?case
  proof
    assume "down a i = a" then show ?thesis by simp
  next
    assume "\<exists>m. m < length a \<and> i < m \<and> down a i = down (swap a i m) m"
    then obtain m where m: "m < length a" "i < m" "down a i = down (swap a i m) m" by blast
    then have "mset (down (swap a i m) m) = mset (swap a i m)"
      by (intro less) auto
    with m show ?thesis by (simp add: mset_swap_heap)
  qed
qed

lemma mset_push: "mset (push a x) = add_mset x (mset a)"
  by (simp add: push_def mset_up)

lemma pop_snoc:
  "pop (ys @ [y]) = Some ((ys @ [y]) ! 0, if ys \<noteq> [] then down (ys[0 := y]) 0 else [])"
  by (simp add: pop_def Let_def)

lemma mset_pop: "pop a = Some (tp, a') \<Longrightarrow> mset a = add_mset tp (mset a')"
proof (cases a rule: rev_cases)
  case Nil
  assume "pop a = Some (tp, a')"
  with Nil show ?thesis by (simp add: pop_def)
next
  case (snoc ys y)
  assume p: "pop a = Some (tp, a')"
  with snoc have r: "tp = (ys @ [y]) ! 0" "a' = (if ys \<noteq> [] then down (ys[0 := y]) 0 else [])"
    by (simp_all add: pop_snoc)
  show ?thesis
  proof (cases ys)
    case Nil
    with r snoc show ?thesis by simp
  next
    case (Cons z zs)
    with r snoc show ?thesis by (simp add: mset_down)
  qed
qed

lemma pop_Nil: "pop [] = None"
  by (simp add: pop_def)

lemma pop_None: "pop a = None \<longleftrightarrow> a = []"
  by (cases a rule: rev_cases) (simp_all add: pop_Nil pop_snoc)

lemma length_pop: "pop a = Some (tp, a') \<Longrightarrow> length a = Suc (length a')"
  by (drule mset_pop) (metis size_mset size_add_mset)

lemma set_pop: "pop a = Some (tp, a') \<Longrightarrow> set a = insert tp (set a')"
  by (drule mset_pop) (metis set_mset_mset set_mset_add_mset_insert)

lemma set_push: "set (push a x) = insert x (set a)"
  by (metis mset_push set_mset_mset set_mset_add_mset_insert)

lemma length_push: "length (push a x) = Suc (length a)"
  by (metis mset_push size_mset size_add_mset)

section \<open>Rules for the loops of A*\<close>


lemma arelax_rule:
  assumes "arelax h grid goal cur nbs st = Inr st'"
    and "I nbs st"
    and skipw: "\<And>nb rest s cl. I (nb # rest) s \<Longrightarrow> cellAt grid nb = Some cl \<Longrightarrow> wall cl
                  \<Longrightarrow> I rest s"
    and skipn: "\<And>nb rest s cl d. I (nb # rest) s \<Longrightarrow> cellAt grid nb = Some cl \<Longrightarrow> \<not> wall cl
                  \<Longrightarrow> gsc s nb = Some d \<Longrightarrow> d \<le> the (gsc s cur) + cellWeight cl \<Longrightarrow> I rest s"
    and upd: "\<And>nb rest s cl. I (nb # rest) s \<Longrightarrow> cellAt grid nb = Some cl \<Longrightarrow> \<not> wall cl
                  \<Longrightarrow> gsc s nb = None \<or> the (gsc s cur) + cellWeight cl < the (gsc s nb)
                  \<Longrightarrow> I rest (aimprove h goal cur nb (the (gsc s cur) + cellWeight cl) s)"
  shows "I [] st'"
  using assms(1,2)
proof (induction nbs arbitrary: st)
  case Nil
  then show ?case by simp
next
  case (Cons nb nbs)
  from Cons.prems(1) obtain cl where cl: "cellAt grid nb = Some cl"
    by (auto split: option.splits)
  show ?case
  proof (cases "wall cl")
    case True
    with Cons.prems cl have "arelax h grid goal cur nbs st = Inr st'" by simp
    moreover have "I nbs st" using skipw[OF Cons.prems(2) cl True] .
    ultimately show ?thesis by (rule Cons.IH)
  next
    case False
    show ?thesis
    proof (cases "gsc st nb = None \<or> the (gsc st cur) + cellWeight cl < the (gsc st nb)")
      case True
      with Cons.prems cl False
      have "arelax h grid goal cur nbs (aimprove h goal cur nb (the (gsc st cur) + cellWeight cl) st)
              = Inr st'"
        by (simp add: aimprove_def Let_def)
      moreover have "I nbs (aimprove h goal cur nb (the (gsc st cur) + cellWeight cl) st)"
        using upd[OF Cons.prems(2) cl False True] .
      ultimately show ?thesis by (rule Cons.IH)
    next
      case F2: False
      then obtain d where d: "gsc st nb = Some d" "d \<le> the (gsc st cur) + cellWeight cl"
        by auto
      from Cons.prems cl False F2 have "arelax h grid goal cur nbs st = Inr st'"
        by (simp add: Let_def)
      moreover have "I nbs st" using skipn[OF Cons.prems(2) cl False d] .
      ultimately show ?thesis by (rule Cons.IH)
    qed
  qed
qed

lemma astar_loop_rule:
  assumes run: "astar_loop h grid rows cols goal diag st = Some (Inr st')"
    and "I st"
    and stale: "\<And>s cur pq'. I s \<Longrightarrow> pop (apq s) = Some (cur, pq')
                  \<Longrightarrow> fsc s (node cur) \<noteq> Some (prio cur) \<Longrightarrow> I (s\<lparr>apq := pq'\<rparr>)"
    and live: "\<And>s cur pq' s2. I s \<Longrightarrow> pop (apq s) = Some (cur, pq')
                  \<Longrightarrow> fsc s (node cur) = Some (prio cur) \<Longrightarrow> node cur \<noteq> goal
                  \<Longrightarrow> arelax h grid goal (node cur)
                        (neighbors (fst (node cur)) (snd (node cur)) rows cols diag)
                        (s\<lparr>apq := pq', avisited := avisited s @ [node cur]\<rparr>) = Inr s2
                  \<Longrightarrow> I s2"
  shows "\<exists>s. I s \<and> (apq s = [] \<and> st' = s
            \<or> (\<exists>f pq'. pop (apq s) = Some ((f, goal), pq') \<and> fsc s goal = Some f
                  \<and> st' = s\<lparr>apq := pq', avisited := avisited s @ [goal]\<rparr>))"
proof -
  define Q where "Q = (\<lambda>st'. \<exists>s. I s \<and> (apq s = [] \<and> st' = s
            \<or> (\<exists>f pq'. pop (apq s) = Some ((f, goal), pq') \<and> fsc s goal = Some f
                  \<and> st' = s\<lparr>apq := pq', avisited := avisited s @ [goal]\<rparr>)))"
  define P where "P = (\<lambda>h' grid' rows' cols' goal' diag' s (y :: error + astate).
      h' = h \<longrightarrow> grid' = grid \<longrightarrow> rows' = rows \<longrightarrow> cols' = cols \<longrightarrow> goal' = goal
      \<longrightarrow> diag' = diag \<longrightarrow> I s \<longrightarrow> (\<forall>s'. y = Inr s' \<longrightarrow> Q s'))"
  have "P h grid rows cols goal diag st (Inr st')"
  proof (rule astar_loop.raw_induct[where P = P, OF _ run], goal_cases)
    case (1 lp h' grid' rows' cols' goal' diag' s y)
    show ?case
      unfolding P_def
    proof (intro impI allI)
      fix s'
      assume eqs: "h' = h" "grid' = grid" "rows' = rows" "cols' = cols" "goal' = goal"
        "diag' = diag" and Is: "I s" and y: "y = Inr s'"
      note IH = 1(1)[unfolded P_def, rule_format, OF _ refl refl refl refl refl refl _ refl]
      note body = 1(2)[unfolded eqs y]
      show "Q s'"
      proof (cases "apq s = []")
        case True
        with body have "s' = s" by simp
        with Is True show ?thesis unfolding Q_def by blast
      next
        case False
        then obtain cur pq' where pp: "pop (apq s) = Some (cur, pq')"
          using pop_None[of "apq s"] by (cases "pop (apq s)") auto
        show ?thesis
        proof (cases "fsc s (node cur) = Some (prio cur)")
          case stl: False
          with body False pp have "lp h grid rows cols goal diag (s\<lparr>apq := pq'\<rparr>) = Some (Inr s')"
            by (auto split: if_splits)
          then show ?thesis using stale[OF Is pp stl] by (rule IH)
        next
          case lv: True
          show ?thesis
          proof (cases "node cur = goal")
            case True
            with body False pp lv
            have "s' = s\<lparr>apq := pq', avisited := avisited s @ [goal]\<rparr>"
              by (simp add: Let_def)
            moreover from True lv pp have "pop (apq s) = Some ((prio cur, goal), pq')"
              "fsc s goal = Some (prio cur)"
              by (cases cur; simp)+
            ultimately show ?thesis using Is unfolding Q_def by blast
          next
            case ng: False
            with body False pp lv obtain s2 where
              r: "arelax h grid goal (node cur)
                        (neighbors (fst (node cur)) (snd (node cur)) rows cols diag)
                        (s\<lparr>apq := pq', avisited := avisited s @ [node cur]\<rparr>) = Inr s2"
              and l2: "lp h grid rows cols goal diag s2 = Some (Inr s')"
              by (auto simp: Let_def split: sum.splits)
            from l2 live[OF Is pp lv ng r] show ?thesis by (rule IH)
          qed
        qed
      qed
    qed
  qed
  with assms(2) show ?thesis unfolding P_def Q_def by blast
qed

section \<open>Invariants of A*\<close>

lemma shifted_dirs:
  "(k :: coord) \<in> set (map (\<lambda>(dr, dc). (r + dr, c + dc)) ds)
     \<longleftrightarrow> (fst k - r, snd k - c) \<in> set ds"
  by (induction ds) auto

lemma neighbors_iff:
  "k \<in> set (neighbors r c rows cols diag) \<longleftrightarrow>
     adjacent diag (r, c) k \<and> inBounds (fst k) (snd k) rows cols"
  unfolding neighbors_def adjacent_def set_filter
  by (simp only: mem_Collect_eq shifted_dirs fst_conv snd_conv case_prod_beta)

lemma neighbors_neq: "k \<in> set (neighbors r c rows cols diag) \<Longrightarrow> k \<noteq> (r, c)"
  unfolding neighbors_iff adjacent_def
  by (cases diag) (auto simp: DIRS8_def DIRS4_def)

lemma rooted_upd_below:
  assumes "rooted cf x"
    and mono: "\<And>k p. cf k = Some p \<Longrightarrow>
                 \<exists>dk dp. (g :: coord \<Rightarrow> nat option) k = Some dk \<and> g p = Some dp \<and> dp \<le> dk"
    and "g x = Some dx" and "g nb = None \<or> dx < the (g nb)"
  shows "rooted (cf(nb \<mapsto> c)) x"
  using assms(1,3,4)
proof (induction arbitrary: dx)
  case (root k)
  then have "k \<noteq> nb" by auto
  with root show ?case by (simp add: rooted.root)
next
  case (step k p)
  then have ne: "k \<noteq> nb" by auto
  from mono[OF step.hyps(1)] step.prems obtain dp where dp: "g p = Some dp" "dp \<le> dx"
    by auto
  with step.prems have "g nb = None \<or> dp < the (g nb)" by auto
  from step.IH[OF dp(1) this] ne step.hyps(1) show ?case
    by (simp add: rooted.step)
qed

lemma rooted_upd_all:
  assumes "rooted (cf(nb \<mapsto> c)) c" and "rooted cf y"
  shows "rooted (cf(nb \<mapsto> c)) y"
  using assms(2)
proof (induction)
  case (root k)
  show ?case
  proof (cases "k = nb")
    case True
    show ?thesis unfolding True by (rule rooted.step[OF _ assms(1)]) simp
  next
    case False
    with root show ?thesis by (simp add: rooted.root)
  qed
next
  case (step k p)
  show ?case
  proof (cases "k = nb")
    case True
    show ?thesis unfolding True by (rule rooted.step[OF _ assms(1)]) simp
  next
    case False
    with step show ?thesis by (simp add: rooted.step)
  qed
qed

lemma aimprove_simps [simp]:
  "gsc (aimprove h goal cur nb t s) = (gsc s)(nb \<mapsto> t)"
  "fsc (aimprove h goal cur nb t s) = (fsc s)(nb \<mapsto> real t + h nb goal)"
  "acame (aimprove h goal cur nb t s) = (acame s)(nb \<mapsto> cur)"
  "apq (aimprove h goal cur nb t s) = push (apq s) (real t + h nb goal, nb)"
  "avisited (aimprove h goal cur nb t s) = avisited s"
  by (simp_all add: aimprove_def)

lemma ainv_aimprove:
  assumes inv: "ainv grid rows cols diag start s"
    and gc: "gsc s cur = Some dc"
    and nb: "nb \<in> set (neighbors (fst cur) (snd cur) rows cols diag)"
    and cl: "cellAt grid nb = Some cl" "\<not> wall cl"
    and imp: "gsc s nb = None \<or> dc + cellWeight cl < the (gsc s nb)"
  shows "ainv grid rows cols diag start (aimprove h goal cur nb (dc + cellWeight cl) s)"
proof -
  let ?s' = "aimprove h goal cur nb (dc + cellWeight cl) s"
  have ne: "nb \<noteq> cur" using neighbors_neq[of nb "fst cur" "snd cur"] nb by simp
  have w: "wt grid nb = cellWeight cl" using cl by (simp add: wt_def)
  have e: "edge grid rows cols diag cur nb" using nb cl by (auto simp: edge_def freeCell_def)
  have old: "edge grid rows cols diag p k \<and>
        (\<exists>dk dp. gsc s k = Some dk \<and> gsc s p = Some dp \<and> dp + wt grid k \<le> dk)"
    if "acame s k = Some p" for k p
    using inv that unfolding ainv_def by blast
  have rt: "rooted (acame s) k" for k
    using inv unfolding ainv_def by blast
  have st: "gsc s start = Some 0" "acame s start = None"
    using inv unfolding ainv_def by blast+
  have dm: "acame s k \<noteq> None" if "gsc s k \<noteq> None" "k \<noteq> start" for k
    using inv that unfolding ainv_def by blast
  have nst: "nb \<noteq> start" using imp st by auto
  have c1: "edge grid rows cols diag p k \<and>
        (\<exists>dk dp. gsc ?s' k = Some dk \<and> gsc ?s' p = Some dp \<and> dp + wt grid k \<le> dk)"
    if "acame ?s' k = Some p" for k p
  proof (cases "k = nb")
    case True
    with that have "p = cur" by simp
    with True e gc ne w show ?thesis by simp
  next
    case False
    with that have ck: "acame s k = Some p" by simp
    from old[OF ck] obtain dk dp where
      o: "edge grid rows cols diag p k" "gsc s k = Some dk" "gsc s p = Some dp"
         "dp + wt grid k \<le> dk" by blast
    show ?thesis
    proof (cases "p = nb")
      case True
      with o imp have "dc + cellWeight cl + wt grid k \<le> dk" by auto
      with o True False show ?thesis by simp
    next
      case F: False
      with o False show ?thesis by simp
    qed
  qed
  have mono: "\<exists>dk dp. gsc s k = Some dk \<and> gsc s p = Some dp \<and> dp \<le> dk"
    if "acame s k = Some p" for k p
    using old[OF that] by fastforce
  have "gsc s nb = None \<or> dc < the (gsc s nb)" using imp by auto
  from rooted_upd_below[of "acame s" cur "gsc s", OF rt mono gc this]
  have "rooted ((acame s)(nb \<mapsto> cur)) cur" by blast
  from rooted_upd_all[OF this rt] have c2: "rooted (acame ?s') k" for k
    by simp
  have c3: "gsc ?s' start = Some 0" "acame ?s' start = None"
    using st nst by simp_all
  have c4: "acame ?s' k \<noteq> None" if "gsc ?s' k \<noteq> None" "k \<noteq> start" for k
    using that dm[of k] by (cases "k = nb") simp_all
  show ?thesis
    unfolding ainv_def
  proof (intro conjI allI impI)
    fix k p
    assume a: "acame ?s' k = Some p"
    from c1[OF a] show "edge grid rows cols diag p k" ..
    from c1[OF a]
    show "\<exists>dk dp. gsc ?s' k = Some dk \<and> gsc ?s' p = Some dp \<and> dp + wt grid k \<le> dk" ..
  qed (use c2 c3 c4 in simp_all)
qed

lemma runAStar_astar_run:
  "runAStar grid start goal diag
     = astar_run (if diag then euclid else manhattan) grid start goal diag"
  unfolding runAStar_def astar_run_def astar_init_def Let_def
  by (simp split: sum.splits prod.splits)

lemma ainv_cong:
  "acame s' = acame s \<Longrightarrow> gsc s' = gsc s \<Longrightarrow>
   ainv grid rows cols diag start s' = ainv grid rows cols diag start s"
  by (simp add: ainv_def)

lemma ainv_arelax:
  assumes "arelax h grid goal cur nbs st = Inr st'"
    and "ainv grid rows cols diag start st"
    and "gsc st cur = Some dc"
    and "set nbs \<subseteq> set (neighbors (fst cur) (snd cur) rows cols diag)"
  shows "ainv grid rows cols diag start st'"
proof -
  define I where "I = (\<lambda>nbs s. ainv grid rows cols diag start s \<and> gsc s cur = Some dc
      \<and> set nbs \<subseteq> set (neighbors (fst cur) (snd cur) rows cols diag))"
  have "I [] st'"
  proof (rule arelax_rule[where I = I, OF assms(1)])
    show "I nbs st" using assms by (simp add: I_def)
  next
    fix nb rest s cl
    assume "I (nb # rest) s"
    then show "I rest s" by (simp add: I_def)
  next
    fix nb rest s cl d
    assume "I (nb # rest) s"
    then show "I rest s" by (simp add: I_def)
  next
    fix nb rest s cl
    assume i: "I (nb # rest) s" and cl: "cellAt grid nb = Some cl" "\<not> wall cl"
      and imp: "gsc s nb = None \<or> the (gsc s cur) + cellWeight cl < the (gsc s nb)"
    from i have inv: "ainv grid rows cols diag start s" and gc: "gsc s cur = Some dc"
      and nb: "nb \<in> set (neighbors (fst cur) (snd cur) rows cols diag)"
      and rest: "set rest \<subseteq> set (neighbors (fst cur) (snd cur) rows cols diag)"
      by (simp_all add: I_def)
    have ne: "nb \<noteq> cur" using neighbors_neq[of nb "fst cur" "snd cur"] nb by simp
    from imp gc have "gsc s nb = None \<or> dc + cellWeight cl < the (gsc s nb)" by simp
    from ainv_aimprove[OF inv gc nb cl this, of h goal] gc ne rest
    show "I rest (aimprove h goal cur nb (the (gsc s cur) + cellWeight cl) s)"
      by (simp add: I_def)
  qed
  then show ?thesis by (simp add: I_def)
qed

lemma alive_arelax:
  assumes "arelax h grid goal cur nbs st = Inr st'"
    and "alive start st" and "avisited st \<noteq> []"
  shows "alive start st' \<and> avisited st' = avisited st"
proof -
  define I where "I = (\<lambda>(nbs :: coord list) s. alive start s \<and> avisited s = avisited st)"
  have "I [] st'"
  proof (rule arelax_rule[where I = I, OF assms(1)])
    show "I nbs st" using assms by (simp add: I_def)
  next
    fix nb rest s cl
    assume "I (nb # rest) s"
    then show "I rest s" by (simp add: I_def)
  next
    fix nb rest s cl d
    assume "I (nb # rest) s"
    then show "I rest s" by (simp add: I_def)
  next
    fix nb rest s cl
    assume i: "I (nb # rest) s"
    then have a: "alive start s" and v: "avisited s = avisited st" by (simp_all add: I_def)
    have "alive start (aimprove h goal cur nb (the (gsc s cur) + cellWeight cl) s)"
      using a v assms(3) unfolding alive_def
      by (auto simp: set_push)
    with v show "I rest (aimprove h goal cur nb (the (gsc s cur) + cellWeight cl) s)"
      by (simp add: I_def)
  qed
  then show ?thesis by (simp add: I_def)
qed

lemma alive_stale:
  assumes "alive start s" and "pop (apq s) = Some (cur, pq')"
    and "fsc s (node cur) \<noteq> Some (prio cur)"
  shows "alive start (s\<lparr>apq := pq'\<rparr>)"
proof -
  from set_pop[OF assms(2)] have sp: "set (apq s) = insert cur (set pq')" .
  have ne: "avisited s \<noteq> []"
  proof
    assume "avisited s = []"
    with assms(1) obtain f where f: "apq s = [(f, start)]" "fsc s start = Some f"
      unfolding alive_def by blast
    with sp have "cur = (f, start)" by auto
    with f assms(3) show False by simp
  qed
  have "k \<in> set (avisited s) \<or> (f, k) \<in> set pq'" if "fsc s k = Some f" for k f
  proof -
    from assms(1) that have "k \<in> set (avisited s) \<or> (f, k) \<in> set (apq s)"
      unfolding alive_def by blast
    moreover have "(f, k) \<noteq> cur" using that assms(3) by auto
    ultimately show ?thesis using sp by auto
  qed
  with assms(1) ne show ?thesis unfolding alive_def by simp
qed

lemma alive_live:
  assumes "alive start s" and "pop (apq s) = Some (cur, pq')"
    and "fsc s (node cur) = Some (prio cur)"
  shows "alive start (s\<lparr>apq := pq', avisited := avisited s @ [node cur]\<rparr>)"
proof -
  from set_pop[OF assms(2)] have sp: "set (apq s) = insert cur (set pq')" .
  have hd: "hd (avisited s @ [node cur]) = start"
  proof (cases "avisited s = []")
    case True
    with assms(1) obtain f where f: "apq s = [(f, start)]" "fsc s start = Some f"
      unfolding alive_def by blast
    with sp have "cur = (f, start)" by auto
    with True show ?thesis by simp
  next
    case False
    with assms(1) show ?thesis unfolding alive_def by simp
  qed
  have "k \<in> set (avisited s @ [node cur]) \<or> (f, k) \<in> set pq'" if "fsc s k = Some f" for k f
  proof -
    from assms(1) that have "k \<in> set (avisited s) \<or> (f, k) \<in> set (apq s)"
      unfolding alive_def by blast
    then show ?thesis using sp by (cases "k = node cur") auto
  qed
  with assms(1) hd show ?thesis unfolding alive_def by simp
qed

lemma ainv_edge:
  "ainv grid rows cols diag start s \<Longrightarrow> acame s k = Some p \<Longrightarrow> edge grid rows cols diag p k"
  unfolding ainv_def by blast

lemma ainv_cost:
  "ainv grid rows cols diag start s \<Longrightarrow> acame s k = Some p \<Longrightarrow>
   \<exists>dk dp. gsc s k = Some dk \<and> gsc s p = Some dp \<and> dp + wt grid k \<le> dk"
  unfolding ainv_def by blast

lemma ainv_rooted: "ainv grid rows cols diag start s \<Longrightarrow> rooted (acame s) k"
  unfolding ainv_def by blast

lemma ainv_start:
  "ainv grid rows cols diag start s \<Longrightarrow> gsc s start = Some 0 \<and> acame s start = None"
  unfolding ainv_def by blast

lemma ainv_came:
  "ainv grid rows cols diag start s \<Longrightarrow> gsc s k \<noteq> None \<Longrightarrow> k \<noteq> start \<Longrightarrow> acame s k \<noteq> None"
  unfolding ainv_def by blast

lemma push_Nil: "push [] x = [x]"
  by (simp add: push_def up.simps)

lemma astar_init_inv:
  "ainv grid rows cols diag start (astar_init h start goal)"
  "alive start (astar_init h start goal)"
  by (auto simp: ainv_def alive_def astar_init_def push_Nil intro: rooted.root)

lemma astar_loop_inv:
  assumes run: "astar_loop h grid rows cols goal diag st = Some (Inr st')"
    and inv: "ainv grid rows cols diag start st" and al: "alive start st"
  shows "ainv grid rows cols diag start st'"
    and "avisited st' \<noteq> []" and "hd (avisited st') = start"
    and "goal \<notin> set (avisited st') \<Longrightarrow> acame st' goal = None"
proof -
  define I where "I = (\<lambda>s. ainv grid rows cols diag start s \<and> alive start s)"
  have "\<exists>s. I s \<and> (apq s = [] \<and> st' = s
            \<or> (\<exists>f pq'. pop (apq s) = Some ((f, goal), pq') \<and> fsc s goal = Some f
                  \<and> st' = s\<lparr>apq := pq', avisited := avisited s @ [goal]\<rparr>))"
  proof (rule astar_loop_rule[where I = I, OF run])
    show "I st" using inv al by (simp add: I_def)
  next
    fix s cur pq'
    assume "I s" "pop (apq s) = Some (cur, pq')" "fsc s (node cur) \<noteq> Some (prio cur)"
    then show "I (s\<lparr>apq := pq'\<rparr>)"
      using alive_stale[of start s cur pq'] ainv_cong[of "s\<lparr>apq := pq'\<rparr>" s]
      by (simp add: I_def)
  next
    fix s cur pq' s2
    assume i: "I s" and pp: "pop (apq s) = Some (cur, pq')"
      and lv: "fsc s (node cur) = Some (prio cur)"
      and r: "arelax h grid goal (node cur)
                (neighbors (fst (node cur)) (snd (node cur)) rows cols diag)
                (s\<lparr>apq := pq', avisited := avisited s @ [node cur]\<rparr>) = Inr s2"
    let ?s1 = "s\<lparr>apq := pq', avisited := avisited s @ [node cur]\<rparr>"
    from i have a1: "alive start ?s1" using alive_live[OF _ pp lv] by (simp add: I_def)
    from i have i1: "ainv grid rows cols diag start ?s1"
      using ainv_cong[of ?s1 s] by (simp add: I_def)
    from i lv obtain dc where "gsc s (node cur) = Some dc"
      unfolding I_def alive_def by (metis option.exhaust option.distinct(1))
    then have g1: "gsc ?s1 (node cur) = Some dc" by simp
    from ainv_arelax[OF r i1 g1] alive_arelax[OF r a1]
    show "I s2" by (simp add: I_def)
  qed
  then obtain s where s: "I s" and ex: "apq s = [] \<and> st' = s
            \<or> (\<exists>f pq'. pop (apq s) = Some ((f, goal), pq') \<and> fsc s goal = Some f
                  \<and> st' = s\<lparr>apq := pq', avisited := avisited s @ [goal]\<rparr>)"
    by blast
  from s have si: "ainv grid rows cols diag start s" and sa: "alive start s"
    by (simp_all add: I_def)
  from ex have "acame st' = acame s" "gsc st' = gsc s" by auto
  with si show "ainv grid rows cols diag start st'"
    by (simp add: ainv_cong[of st' s])
  from ex show "avisited st' \<noteq> []"
  proof
    assume "apq s = [] \<and> st' = s"
    with sa show ?thesis unfolding alive_def by auto
  qed auto
  from ex show "hd (avisited st') = start"
  proof
    assume "apq s = [] \<and> st' = s"
    with sa show ?thesis unfolding alive_def by auto
  next
    assume "\<exists>f pq'. pop (apq s) = Some ((f, goal), pq') \<and> fsc s goal = Some f
                  \<and> st' = s\<lparr>apq := pq', avisited := avisited s @ [goal]\<rparr>"
    then obtain f pq' where pp: "pop (apq s) = Some ((f, goal), pq')"
      and f: "fsc s goal = Some f"
      and e: "st' = s\<lparr>apq := pq', avisited := avisited s @ [goal]\<rparr>" by blast
    from alive_live[OF sa pp] f e show ?thesis unfolding alive_def by simp
  qed
  show "acame st' goal = None" if ng: "goal \<notin> set (avisited st')"
  proof -
    from ex ng have e: "apq s = []" "st' = s" by auto
    with sa ng have "fsc s goal = None" unfolding alive_def
      by (metis empty_iff list.set(1) option.exhaust)
    with sa have "gsc s goal = None" unfolding alive_def by blast
    with ainv_cost[OF si, of goal] e show ?thesis by (cases "acame s goal") auto
  qed
qed

section \<open>Reconstruction\<close>

lemma rooted_chain: "rooted cf k \<Longrightarrow> \<exists>ks. chain cf k ks"
  by (induction rule: rooted.induct) (auto intro: chain.intros)

lemma reconstruct_loop_chain:
  "chain cf k ks \<Longrightarrow> reconstruct_loop cf (Some k) acc = Some (acc @ ks)"
proof (induction arbitrary: acc rule: chain.induct)
  case (last k)
  then show ?case by (simp add: reconstruct_loop.simps)
next
  case (link k p ks)
  from link.IH[of "acc @ [k]"] link.hyps(1) show ?case
    by (subst reconstruct_loop.simps) simp
qed

lemma reconstruct_chain:
  "chain cf k ks \<Longrightarrow> reconstruct cf k = Some (if cf k = None then [] else rev ks)"
  by (simp add: reconstruct_def reconstruct_loop_chain[where acc = "[]", simplified])

lemma chain_props:
  assumes "chain cf k ks"
  shows "ks \<noteq> []" "hd ks = k" "cf (last ks) = None" "successively (\<lambda>a b. cf a = Some b) ks"
  using assms by (induction rule: chain.induct) (auto simp: successively_Cons)

lemma chain_edges:
  assumes "chain (acame s) k ks" and "ainv grid rows cols diag start s"
  shows "successively (\<lambda>a b. edge grid rows cols diag a b) (rev ks)"
proof -
  have "successively (\<lambda>b a. edge grid rows cols diag a b) ks"
    using chain_props(4)[OF assms(1)]
  proof (rule successively_mono)
    fix a b
    assume "acame s a = Some b"
    with assms(2) show "edge grid rows cols diag b a" by (rule ainv_edge)
  qed
  then show ?thesis by simp
qed

lemma chain_last_parent:
  "chain cf k ks \<Longrightarrow> cf k \<noteq> None \<Longrightarrow> \<exists>q. cf q = Some (last ks)"
proof (induction rule: chain.induct)
  case (last k)
  then show ?case by simp
next
  case (link k p ks)
  show ?case
  proof (cases "cf p = None")
    case True
    with link.hyps(2) have "ks = [p]" by (auto elim: chain.cases)
    with link.hyps(1) show ?thesis by (intro exI[of _ k]) simp
  next
    case False
    from link.IH[OF False] chain_props(1)[OF link.hyps(2)] show ?thesis by simp
  qed
qed

lemma chain_root:
  assumes "chain (acame s) k ks" and "ainv grid rows cols diag start s"
    and "acame s k \<noteq> None"
  shows "last ks = start"
proof -
  from chain_last_parent[OF assms(1,3)] obtain q where q: "acame s q = Some (last ks)" ..
  from ainv_cost[OF assms(2) q] have "gsc s (last ks) \<noteq> None" by auto
  moreover have "acame s (last ks) = None" using chain_props(3)[OF assms(1)] .
  ultimately show ?thesis using ainv_came[OF assms(2), of "last ks"] by blast
qed

section \<open>Results of a run of A*\<close>

lemma successively_tl:
  "successively P xs \<Longrightarrow> (\<And>a b. P a b \<Longrightarrow> Q b) \<Longrightarrow> \<forall>b \<in> set (tl xs). Q b"
  by (induction P xs rule: successively.induct) auto

lemma edge_adjacent: "edge grid rows cols diag a b \<Longrightarrow> adjacent diag a b"
  using neighbors_iff[of b "fst a" "snd a" rows cols diag] by (simp add: edge_def)

lemma astar_run_props:
  assumes "astar_run h grid start goal diag = Some (Inr res)"
  shows "successively (adjacent diag) (path res)"
    and "\<forall>p \<in> set (tl (path res)). freeCell grid p"
    and "path res \<noteq> [] \<longrightarrow> hd (path res) = start \<and> last (path res) = goal"
    and "visited res \<noteq> []" and "hd (visited res) = start"
    and "goal \<notin> set (visited res) \<longrightarrow> path res = []"
proof -
  from assms obtain rows cols st p where
    d: "dims grid = Inr (rows, cols)"
    and l: "astar_loop h grid rows cols goal diag (astar_init h start goal) = Some (Inr st)"
    and r: "reconstruct (acame st) goal = Some p"
    and res: "res = \<lparr>visited = avisited st, path = p\<rparr>"
    unfolding astar_run_def
    by (auto split: sum.splits option.splits prod.splits)
  note inv = astar_loop_inv[OF l astar_init_inv(1)[of grid rows cols diag] astar_init_inv(2)]
  from rooted_chain[OF ainv_rooted[OF inv(1)], of goal]
  obtain ks where ks: "chain (acame st) goal ks" ..
  from reconstruct_chain[OF ks] r
  have p: "p = (if acame st goal = None then [] else rev ks)" by simp
  note cp = chain_props[OF ks]
  have e: "successively (edge grid rows cols diag) p"
    using chain_edges[OF ks inv(1)] p by simp
  from e show "successively (adjacent diag) (path res)"
    unfolding res by (simp, rule successively_mono) (rule edge_adjacent)
  from successively_tl[OF e, of "freeCell grid"]
  show "\<forall>p \<in> set (tl (path res)). freeCell grid p"
    unfolding res by (simp add: edge_def)
  show "path res \<noteq> [] \<longrightarrow> hd (path res) = start \<and> last (path res) = goal"
  proof
    assume "path res \<noteq> []"
    with p res have c: "acame st goal \<noteq> None" and pr: "p = rev ks" by (auto split: if_splits)
    from chain_root[OF ks inv(1) c] cp(1,2) pr res
    show "hd (path res) = start \<and> last (path res) = goal"
      by (simp add: hd_rev last_rev)
  qed
  from inv(2,3) res show "visited res \<noteq> []" "hd (visited res) = start" by simp_all
  from inv(4) p res show "goal \<notin> set (visited res) \<longrightarrow> path res = []" by simp
qed

section \<open>Termination of A*\<close>

lemma set_gridCells:
  "k \<in> set (gridCells rows cols) \<longleftrightarrow> inBounds (fst k) (snd k) rows cols"
  by (cases k) (auto simp: gridCells_def inBounds_def image_iff)

lemma wf_astar_rel: "wf (astar_rel rows cols)"
  unfolding astar_rel_def by (intro wf_inv_image wf_lex_prod wf_lex wf wf_less_than)

lemma pointwise_lex:
  fixes f g :: "'a \<Rightarrow> 'b::linorder"
  shows "\<forall>x \<in> set xs. f x \<le> g x \<Longrightarrow> \<exists>x \<in> set xs. f x < g x
    \<Longrightarrow> (map f xs, map g xs) \<in> lex {(a, b). a < b}"
proof (induction xs)
  case Nil
  then show ?case by simp
next
  case (Cons x xs)
  show ?case
  proof (cases "f x < g x")
    case True
    then show ?thesis by simp
  next
    case False
    with Cons.prems have "f x = g x" "\<exists>x \<in> set xs. f x < g x" by auto
    with Cons show ?thesis by simp
  qed
qed

lemma arelax_measure:
  assumes "arelax h grid goal cur nbs st = Inr st'"
    and "set nbs \<subseteq> set (gridCells rows cols)"
  shows "(\<forall>k. costRank (gsc st' k) \<le> costRank (gsc st k))
     \<and> ((\<exists>k \<in> set (gridCells rows cols). costRank (gsc st' k) < costRank (gsc st k))
        \<or> (gsc st' = gsc st \<and> length (apq st') = length (apq st)))"
proof -
  define I where "I = (\<lambda>nbs (s :: astate). set nbs \<subseteq> set (gridCells rows cols)
     \<and> (\<forall>k. costRank (gsc s k) \<le> costRank (gsc st k))
     \<and> ((\<exists>k \<in> set (gridCells rows cols). costRank (gsc s k) < costRank (gsc st k))
        \<or> (gsc s = gsc st \<and> length (apq s) = length (apq st))))"
  have "I [] st'"
  proof (rule arelax_rule[where I = I, OF assms(1)])
    show "I nbs st" using assms(2) by (simp add: I_def)
  next
    fix nb rest s cl
    assume "I (nb # rest) s"
    then show "I rest s" by (simp add: I_def)
  next
    fix nb rest s cl d
    assume "I (nb # rest) s"
    then show "I rest s" by (simp add: I_def)
  next
    fix nb rest s cl
    assume i: "I (nb # rest) s"
      and imp: "gsc s nb = None \<or> the (gsc s cur) + cellWeight cl < the (gsc s nb)"
    let ?t = "the (gsc s cur) + cellWeight cl"
    from imp have lt: "costRank (Some ?t) < costRank (gsc s nb)"
      by (cases "gsc s nb") (auto simp: costRank_def)
    from i have le: "\<And>k. costRank (gsc s k) \<le> costRank (gsc st k)"
      and nb: "nb \<in> set (gridCells rows cols)" and rest: "set rest \<subseteq> set (gridCells rows cols)"
      unfolding I_def by auto
    have "costRank (gsc (aimprove h goal cur nb ?t s) k) \<le> costRank (gsc st k)" for k
      using le[of k] lt le[of nb] by (cases "k = nb") auto
    moreover have "costRank (gsc (aimprove h goal cur nb ?t s) nb) < costRank (gsc st nb)"
      using lt le[of nb] by simp
    ultimately show "I rest (aimprove h goal cur nb ?t s)"
      using nb rest unfolding I_def by blast
  qed
  then show ?thesis by (simp add: I_def)
qed

lemma arelax_no_error:
  "\<forall>nb \<in> set nbs. cellAt grid nb \<noteq> None \<Longrightarrow> \<exists>s'. arelax h grid goal cur nbs st = Inr s'"
  by (induction nbs arbitrary: st) (auto simp: Let_def)

lemma astar_loop_terminates:
  "\<exists>out. astar_loop h grid rows cols goal diag st = Some out
     \<and> ((\<forall>k. inBounds (fst k) (snd k) rows cols \<longrightarrow> cellAt grid k \<noteq> None)
          \<longrightarrow> (\<exists>s'. out = Inr s'))"
proof (induction st rule: wf_induct_rule[OF wf_astar_rel[of rows cols]])
  case (1 s)
  show ?case
  proof (cases "apq s = []")
    case True
    then show ?thesis by (subst astar_loop.simps) simp
  next
    case False
    then obtain cur pq' where pp: "pop (apq s) = Some (cur, pq')"
      using pop_None[of "apq s"] by (cases "pop (apq s)") auto
    note len = length_pop[OF pp]
    show ?thesis
    proof (cases "fsc s (node cur) = Some (prio cur)")
      case stl: False
      have "(s\<lparr>apq := pq'\<rparr>, s) \<in> astar_rel rows cols"
        using len by (simp add: astar_rel_def)
      from 1[OF this] stl False pp show ?thesis
        by (subst astar_loop.simps) auto
    next
      case lv: True
      let ?s1 = "s\<lparr>apq := pq', avisited := avisited s @ [node cur]\<rparr>"
      let ?nbs = "neighbors (fst (node cur)) (snd (node cur)) rows cols diag"
      show ?thesis
      proof (cases "node cur = goal")
        case True
        with lv False pp show ?thesis by (subst astar_loop.simps) (simp add: Let_def)
      next
        case ng: False
        show ?thesis
        proof (cases "arelax h grid goal (node cur) ?nbs ?s1")
          case (Inl e)
          have "\<not> (\<forall>k. inBounds (fst k) (snd k) rows cols \<longrightarrow> cellAt grid k \<noteq> None)"
          proof
            assume "\<forall>k. inBounds (fst k) (snd k) rows cols \<longrightarrow> cellAt grid k \<noteq> None"
            then have "\<forall>nb \<in> set ?nbs. cellAt grid nb \<noteq> None"
              using neighbors_iff by blast
            from arelax_no_error[OF this, of h goal "node cur" ?s1] Inl
            show False by simp
          qed
          with Inl ng lv False pp show ?thesis by (subst astar_loop.simps) (simp add: Let_def)
        next
          case (Inr s2)
          have sub: "set ?nbs \<subseteq> set (gridCells rows cols)"
            by (auto simp: neighbors_iff set_gridCells)
          from arelax_measure[OF Inr sub]
          have le: "\<And>k. costRank (gsc s2 k) \<le> costRank (gsc s k)"
            and alt: "(\<exists>k \<in> set (gridCells rows cols). costRank (gsc s2 k) < costRank (gsc s k))
                \<or> (gsc s2 = gsc s \<and> length (apq s2) = length pq')"
            by auto
          have "(s2, s) \<in> astar_rel rows cols"
            using alt
          proof
            assume "\<exists>k \<in> set (gridCells rows cols). costRank (gsc s2 k) < costRank (gsc s k)"
            with le have "(map (\<lambda>k. costRank (gsc s2 k)) (gridCells rows cols),
                map (\<lambda>k. costRank (gsc s k)) (gridCells rows cols)) \<in> lex {(a, b). a < b}"
              by (intro pointwise_lex) auto
            then show ?thesis by (simp add: astar_rel_def)
          next
            assume "gsc s2 = gsc s \<and> length (apq s2) = length pq'"
            with len show ?thesis by (simp add: astar_rel_def)
          qed
          from 1[OF this] Inr ng lv False pp show ?thesis
            by (subst astar_loop.simps) (simp add: Let_def)
        qed
      qed
    qed
  qed
qed


lemma rect_cellAt:
  assumes "rect grid" and "dims grid = Inr (rows, cols)"
    and "inBounds (fst k) (snd k) rows cols"
  shows "cellAt grid k \<noteq> None"
proof -
  from assms(2) have r: "rows = int (length grid)" "cols = int (length (hd grid))"
    by (auto simp: dims_def split: list.splits)
  from assms(3) have b: "0 \<le> fst k" "fst k < rows" "0 \<le> snd k" "snd k < cols"
    by (simp_all add: inBounds_def)
  with r have n: "nat (fst k) < length grid" "nat (snd k) < length (hd grid)" by linarith+
  then have "grid ! nat (fst k) \<in> set grid" by simp
  with assms(1) have "length (grid ! nat (fst k)) = length (hd grid)" by (simp add: rect_def)
  with n b show ?thesis by (simp add: cellAt_def)
qed

lemma astar_run_terminates:
  "\<exists>out. astar_run h grid start goal diag = Some out"
proof (cases "dims grid")
  case (Inl e)
  then show ?thesis by (simp add: astar_run_def)
next
  case (Inr rc)
  obtain rows cols where rc: "rc = (rows, cols)" by (cases rc)
  from astar_loop_terminates[of h grid rows cols goal diag "astar_init h start goal"]
  obtain out where l: "astar_loop h grid rows cols goal diag (astar_init h start goal) = Some out"
    by blast
  show ?thesis
  proof (cases out)
    case (Inl e)
    with l Inr rc show ?thesis by (simp add: astar_run_def)
  next
    case r: (Inr st)
    note inv = astar_loop_inv[OF l[unfolded r] astar_init_inv(1)[of grid rows cols diag]
        astar_init_inv(2)]
    from rooted_chain[OF ainv_rooted[OF inv(1)], of goal]
    obtain ks where "chain (acame st) goal ks" ..
    from reconstruct_chain[OF this] l r Inr rc show ?thesis by (simp add: astar_run_def)
  qed
qed

lemma astar_run_returns:
  assumes "grid \<noteq> []" and "rect grid"
  shows "\<exists>res. astar_run h grid start goal diag = Some (Inr res)"
proof -
  from assms(1) obtain rows cols where d: "dims grid = Inr (rows, cols)"
    by (cases grid) (simp_all add: dims_def)
  from astar_loop_terminates[of h grid rows cols goal diag "astar_init h start goal"]
    rect_cellAt[OF assms(2) d]
  obtain st where l: "astar_loop h grid rows cols goal diag (astar_init h start goal)
      = Some (Inr st)"
    by blast
  note inv = astar_loop_inv[OF l astar_init_inv(1)[of grid rows cols diag] astar_init_inv(2)]
  from rooted_chain[OF ainv_rooted[OF inv(1)], of goal]
  obtain ks where "chain (acame st) goal ks" ..
  from reconstruct_chain[OF this] l d show ?thesis by (simp add: astar_run_def)
qed

section \<open>Dijkstra as A* with the zero heuristic\<close>

lemma rprio_le [simp]: "prio (rprio a) \<le> prio (rprio b) \<longleftrightarrow> prio a \<le> prio b"
  and rprio_less [simp]: "prio (rprio a) < prio (rprio b) \<longleftrightarrow> prio a < prio b"
  and rprio_node [simp]: "node (rprio a) = node a"
  and rprio_prio [simp]: "prio (rprio a) = real (prio a)"
  by (simp_all add: rprio_def)

lemma swap_map: "i < length a \<Longrightarrow> j < length a \<Longrightarrow> swap (map f a) i j = map f (swap a i j)"
  by (simp add: swap_def map_update)

lemma up_map: "i < length a \<Longrightarrow> up (map rprio a) i = map rprio (up a i)"
proof (induction i arbitrary: a rule: less_induct)
  case (less i)
  show ?case
  proof (cases "i > 0 \<and> \<not> prio (a ! ((i - 1) div 2)) \<le> prio (a ! i)")
    case True
    then have lt: "(i - 1) div 2 < i" by auto
    with less.prems have p: "(i - 1) div 2 < length a" by simp
    have "up (map rprio (swap a ((i - 1) div 2) i)) ((i - 1) div 2)
        = map rprio (up (swap a ((i - 1) div 2) i) ((i - 1) div 2))"
      using less.IH[OF lt, of "swap a ((i - 1) div 2) i"] p by simp
    with True p less.prems show ?thesis
      by (subst up.simps, subst (2) up.simps) (simp add: Let_def swap_map del: rprio_prio)
  next
    case False
    with less.prems show ?thesis
      by (subst up.simps, subst (2) up.simps) (auto simp: Let_def simp del: rprio_prio)
  qed
qed

lemma down_map: "down (map rprio a) i = map rprio (down a i)"
proof (induction "length a - i" arbitrary: a i rule: less_induct)
  case less
  define l where "l = i * 2 + 1"
  define m1 where "m1 = (if l < length a \<and> prio (a ! l) < prio (a ! i) then l else i)"
  define m where "m = (if l + 1 < length a \<and> prio (a ! (l + 1)) < prio (a ! m1) then l + 1 else m1)"
  have e1: "down a i = (if m = i then a else down (swap a i m) m)"
    by (subst down.simps) (simp add: Let_def l_def m1_def m_def)
  have m1': "(if l < length (map rprio a) \<and> prio (map rprio a ! l) < prio (map rprio a ! i)
         then l else i) = m1"
    by (auto simp: m1_def l_def simp del: rprio_prio)
  have m1lt: "l + 1 < length a \<Longrightarrow> m1 < length a" by (auto simp: m1_def l_def)
  have m': "(if l + 1 < length (map rprio a)
            \<and> prio (map rprio a ! (l + 1)) < prio (map rprio a ! m1) then l + 1 else m1) = m"
    using m1lt by (auto simp: m_def simp del: rprio_prio)
  have e2: "down (map rprio a) i
      = (if m = i then map rprio a else down (swap (map rprio a) i m) m)"
    by (subst down.simps) (simp only: Let_def l_def[symmetric] m1' m')
  show ?case
  proof (cases "m = i")
    case True
    with e1 e2 show ?thesis by simp
  next
    case False
    then have lt: "m < length a" "i < m"
      by (auto simp: m_def m1_def l_def split: if_splits)
    then have "down (map rprio (swap a i m)) m = map rprio (down (swap a i m) m)"
      by (intro less) auto
    with False lt e1 e2 show ?thesis by (simp add: swap_map)
  qed
qed

lemma push_map: "push (map rprio a) (rprio x) = map rprio (push a x)"
  using up_map[of "length a" "a @ [x]"] by (simp add: push_def)

lemma pop_map:
  "pop (map rprio a) = map_option (\<lambda>(t, a'). (rprio t, map rprio a')) (pop a)"
proof (cases a rule: rev_cases)
  case Nil
  then show ?thesis by (simp add: pop_Nil)
next
  case (snoc ys y)
  have p1: "pop a = Some ((ys @ [y]) ! 0, if ys \<noteq> [] then down (ys[0 := y]) 0 else [])"
    unfolding snoc by (rule pop_snoc)
  have "pop (map rprio ys @ [rprio y])
      = Some ((map rprio ys @ [rprio y]) ! 0,
          if map rprio ys \<noteq> [] then down ((map rprio ys)[0 := rprio y]) 0 else [])"
    by (rule pop_snoc)
  then have p2: "pop (map rprio a)
      = Some ((map rprio ys @ [rprio y]) ! 0,
          if ys \<noteq> [] then down ((map rprio ys)[0 := rprio y]) 0 else [])"
    unfolding snoc by simp
  show ?thesis
    unfolding p1 p2
    by (cases ys) (simp_all add: down_map[symmetric] del: rprio_prio)
qed

lemma d2a_simps [simp]:
  "apq (d2a st) = map rprio (pq st)"
  "gsc (d2a st) = dist st"
  "fsc (d2a st) = (\<lambda>k. map_option real (dist st k))"
  "acame (d2a st) = came st"
  "avisited (d2a st) = dvisited st"
  by (simp_all add: d2a_def)

lemma d2a_inj: "d2a s = d2a t \<Longrightarrow> s = t"
proof -
  assume e: "d2a s = d2a t"
  have inj: "inj rprio" by (auto simp: inj_on_def rprio_def)
  from e have "map rprio (pq s) = map rprio (pq t)" "dist s = dist t" "came s = came t"
    "dvisited s = dvisited t"
    by (simp_all add: d2a_def)
  with inj have "pq s = pq t" "dist s = dist t" "came s = came t" "dvisited s = dvisited t"
    by (simp_all add: inj_map_eq_map)
  then show ?thesis by simp
qed

lemma drelax_arelax:
  "arelax (\<lambda>_ _. 0) grid goal cur nbs (d2a st) = map_sum id d2a (drelax grid cur nbs st)"
proof (induction nbs arbitrary: st)
  case Nil
  then show ?case by simp
next
  case (Cons nb nbs)
  have upd: "d2a st\<lparr>gsc := (dist st)(nb \<mapsto> t), fsc := (\<lambda>k. map_option real (dist st k))(nb \<mapsto> r),
         acame := (came st)(nb \<mapsto> cur), apq := push (map rprio (pq st)) (r, nb)\<rparr>
       = d2a (st\<lparr>dist := (dist st)(nb \<mapsto> t), came := (came st)(nb \<mapsto> cur),
                 pq := push (pq st) (t, nb)\<rparr>)" if "r = real t" for t r
    using push_map[of "pq st" "(t, nb)"] that
    by (simp add: d2a_def rprio_def fun_eq_iff)
  show ?case
  proof (cases "cellAt grid nb")
    case None
    then show ?thesis by simp
  next
    case (Some cl)
    with Cons show ?thesis by (simp add: Let_def upd)
  qed
qed

lemma dijkstra_astar_loop:
  assumes "astar_loop (\<lambda>_ _. 0) grid rows cols goal diag (d2a st) = Some out'"
  shows "\<exists>out. dijkstra_loop grid rows cols goal diag st = Some out \<and> out' = map_sum id d2a out"
proof -
  define z :: "coord \<Rightarrow> coord \<Rightarrow> real" where "z = (\<lambda>_ _. 0)"
  define P where "P = (\<lambda>h' grid' rows' cols' goal' diag' s (y :: error + astate).
      h' = z \<longrightarrow> grid' = grid \<longrightarrow> rows' = rows \<longrightarrow> cols' = cols \<longrightarrow> goal' = goal
      \<longrightarrow> diag' = diag \<longrightarrow> (\<forall>st. s = d2a st \<longrightarrow>
         (\<exists>out. dijkstra_loop grid rows cols goal diag st = Some out \<and> y = map_sum id d2a out)))"
  have run: "astar_loop z grid rows cols goal diag (d2a st) = Some out'"
    using assms by (simp add: z_def)
  have "P z grid rows cols goal diag (d2a st) out'"
  proof (rule astar_loop.raw_induct[where P = P, OF _ run], goal_cases)
    case (1 lp h' grid' rows' cols' goal' diag' s y)
    show ?case
      unfolding P_def
    proof (intro impI allI)
      fix st
      assume eqs: "h' = z" "grid' = grid" "rows' = rows" "cols' = cols" "goal' = goal"
        "diag' = diag" and s: "s = d2a st"
      note IH = 1(1)[unfolded P_def, rule_format, OF _ refl refl refl refl refl refl refl]
      note body = 1(2)[unfolded eqs s]
      show "\<exists>out. dijkstra_loop grid rows cols goal diag st = Some out \<and> y = map_sum id d2a out"
      proof (cases "pq st = []")
        case True
        with body show ?thesis by (subst dijkstra_loop.simps) simp
      next
        case False
        then obtain cur pq' where pp: "pop (pq st) = Some (cur, pq')"
          using pop_None[of "pq st"] by (cases "pop (pq st)") auto
        then have pa: "pop (map rprio (pq st)) = Some (rprio cur, map rprio pq')"
          by (simp add: pop_map)
        have stale_eq: "(Some (prio (rprio cur)) \<noteq> map_option real (dist st (node cur)))
            = (Some (prio cur) \<noteq> dist st (node cur))"
          by (cases "dist st (node cur)") auto
        show ?thesis
        proof (cases "Some (prio cur) \<noteq> dist st (node cur)")
          case True
          with body False pa stale_eq
          have "lp z grid rows cols goal diag (d2a (st\<lparr>pq := pq'\<rparr>)) = Some y"
            by (simp add: d2a_def)
          from IH[OF this] True False pp show ?thesis
            by (subst dijkstra_loop.simps) simp
        next
          case lv: False
          let ?s1 = "st\<lparr>pq := pq', dvisited := dvisited st @ [node cur]\<rparr>"
          have s1: "d2a st\<lparr>apq := map rprio pq', avisited := dvisited st @ [x]\<rparr>
              = d2a (st\<lparr>pq := pq', dvisited := dvisited st @ [x]\<rparr>)" for x
            by (simp add: d2a_def)
          show ?thesis
          proof (cases "node cur = goal")
            case True
            with body False pa stale_eq lv have "y = Inr (d2a ?s1)"
              by (simp add: Let_def s1)
            with True lv False pp show ?thesis
              by (subst dijkstra_loop.simps) (simp add: Let_def)
          next
            case ng: False
            let ?nbs = "neighbors (fst (node cur)) (snd (node cur)) rows cols diag"
            from body False pa stale_eq lv ng
            have b2: "(case arelax z grid goal (node cur) ?nbs (d2a ?s1) of
                        Inl e \<Rightarrow> Some (Inl e)
                      | Inr st2 \<Rightarrow> lp z grid rows cols goal diag st2) = Some y"
              by (simp add: Let_def s1)
            show ?thesis
            proof (cases "drelax grid (node cur) ?nbs ?s1")
              case (Inl e)
              with b2 drelax_arelax[of grid goal "node cur" ?nbs ?s1] have "y = Inl e"
                by (simp add: z_def)
              with Inl ng lv False pp show ?thesis
                by (subst dijkstra_loop.simps) (simp add: Let_def)
            next
              case (Inr st2)
              with b2 drelax_arelax[of grid goal "node cur" ?nbs ?s1]
              have "lp z grid rows cols goal diag (d2a st2) = Some y"
                by (simp add: z_def)
              from IH[OF this] Inr ng lv False pp show ?thesis
                by (subst dijkstra_loop.simps) (simp add: Let_def)
            qed
          qed
        qed
      qed
    qed
  qed
  then show ?thesis unfolding P_def by blast
qed

lemma runDijkstra_astar_run:
  "runDijkstra grid start goal diag = astar_run (\<lambda>_ _. 0) grid start goal diag"
proof (cases "dims grid")
  case (Inl e)
  then show ?thesis by (simp add: runDijkstra_def astar_run_def)
next
  case (Inr rc)
  obtain rows cols where rc: "rc = (rows, cols)" by (cases rc)
  let ?i = "\<lparr>pq = push [] (0, start), dist = [start \<mapsto> 0], came = Map.empty, dvisited = []\<rparr>"
  have i: "astar_init (\<lambda>_ _. 0) start goal = d2a ?i"
    by (simp add: astar_init_def d2a_def push_Nil rprio_def fun_eq_iff)
  from astar_loop_terminates[of "\<lambda>_ _. 0" grid rows cols goal diag "d2a ?i"]
  obtain out' where a: "astar_loop (\<lambda>_ _. 0) grid rows cols goal diag (d2a ?i) = Some out'"
    by blast
  from dijkstra_astar_loop[OF a] obtain out where
    d: "dijkstra_loop grid rows cols goal diag ?i = Some out" and o: "out' = map_sum id d2a out"
    by blast
  from Inr rc i a d o show ?thesis
    by (cases out) (simp_all add: runDijkstra_def astar_run_def split: option.splits)
qed

section \<open>The shape of a returned result\<close>

lemma astar_loop_exhausted:
  assumes "astar_loop h grid rows cols goal diag st = Some (Inr st')"
    and "goal \<notin> set (avisited st')"
  shows "apq st' = []"
proof -
  from astar_loop_rule[where I = "\<lambda>_. True", OF assms(1)]
  obtain s where "apq s = [] \<and> st' = s
            \<or> (\<exists>f pq'. pop (apq s) = Some ((f, goal), pq') \<and> fsc s goal = Some f
                  \<and> st' = s\<lparr>apq := pq', avisited := avisited s @ [goal]\<rparr>)"
    by blast
  with assms(2) show ?thesis by auto
qed

lemma astar_run_cases:
  assumes "astar_run h grid start goal diag = Some (Inr res)"
  obtains rows cols st ks where
    "dims grid = Inr (rows, cols)"
    "astar_loop h grid rows cols goal diag (astar_init h start goal) = Some (Inr st)"
    "ainv grid rows cols diag start st"
    "visited res = avisited st"
    "chain (acame st) goal ks"
    "path res = (if acame st goal = None then [] else rev ks)"
proof -
  from assms obtain rows cols st p where
    d: "dims grid = Inr (rows, cols)"
    and l: "astar_loop h grid rows cols goal diag (astar_init h start goal) = Some (Inr st)"
    and r: "reconstruct (acame st) goal = Some p"
    and res: "res = \<lparr>visited = avisited st, path = p\<rparr>"
    unfolding astar_run_def
    by (auto split: sum.splits option.splits prod.splits)
  note inv = astar_loop_inv[OF l astar_init_inv(1)[of grid rows cols diag] astar_init_inv(2)]
  from rooted_chain[OF ainv_rooted[OF inv(1)], of goal]
  obtain ks where ks: "chain (acame st) goal ks" ..
  from reconstruct_chain[OF ks] r
  have "p = (if acame st goal = None then [] else rev ks)" by simp
  with d l inv(1) res ks that show thesis by simp
qed

lemma astar_run_goal_free:
  assumes "astar_run h grid start goal diag = Some (Inr res)" and "path res \<noteq> []"
  shows "freeCell grid goal"
proof -
  from assms(1) obtain rows cols st ks where
    inv: "ainv grid rows cols diag start st"
    and p: "path res = (if acame st goal = None then [] else rev ks)"
    by (rule astar_run_cases)
  from p assms(2) obtain q where "acame st goal = Some q" by (cases "acame st goal") auto
  from ainv_edge[OF inv this] show ?thesis by (simp add: edge_def)
qed

lemma dijkstra_loop_exhausted:
  assumes "dijkstra_loop grid rows cols goal diag st = Some (Inr st')"
    and "goal \<notin> set (dvisited st')"
  shows "pq st' = []"
proof -
  from astar_loop_terminates[of "\<lambda>_ _. 0" grid rows cols goal diag "d2a st"]
  obtain out' where a: "astar_loop (\<lambda>_ _. 0) grid rows cols goal diag (d2a st) = Some out'"
    by blast
  from dijkstra_astar_loop[OF a] assms(1) have "out' = Inr (d2a st')" by auto
  with a astar_loop_exhausted[of "\<lambda>_ _. 0" grid rows cols goal diag "d2a st" "d2a st'"]
    assms(2)
  show ?thesis by simp
qed

section \<open>An unreachable goal\<close>

text \<open>
  C7. On a rectangular grid with at least one row, Dijkstra and A* always terminate and
  return a result, never an exception, and its visited sequence is not empty. When the
  goal was never popped (it is not in the visited sequence), the loop ended with the
  queue exhausted and the path is empty.
\<close>

theorem unreachable_goal_result:
  assumes "grid \<noteq> []" and "rect grid"
  shows "(\<exists>res. runDijkstra grid start goal diag = Some (Inr res) \<and> visited res \<noteq> []
            \<and> (goal \<notin> set (visited res) \<longrightarrow> path res = []))
       \<and> (\<exists>res. runAStar grid start goal diag = Some (Inr res) \<and> visited res \<noteq> []
            \<and> (goal \<notin> set (visited res) \<longrightarrow> path res = []))
       \<and> (\<forall>rows cols st0 st. dijkstra_loop grid rows cols goal diag st0 = Some (Inr st)
            \<longrightarrow> goal \<notin> set (dvisited st) \<longrightarrow> pq st = [])
       \<and> (\<forall>h rows cols st0 st. astar_loop h grid rows cols goal diag st0 = Some (Inr st)
            \<longrightarrow> goal \<notin> set (avisited st) \<longrightarrow> apq st = [])"
proof (intro conjI allI impI)
  from astar_run_returns[OF assms, of "\<lambda>_ _. 0" start goal diag]
  obtain res where r: "astar_run (\<lambda>_ _. 0) grid start goal diag = Some (Inr res)" ..
  with astar_run_props(4,6)[OF r]
  show "\<exists>res. runDijkstra grid start goal diag = Some (Inr res) \<and> visited res \<noteq> []
            \<and> (goal \<notin> set (visited res) \<longrightarrow> path res = [])"
    unfolding runDijkstra_astar_run by blast
next
  from astar_run_returns[OF assms, of "if diag then euclid else manhattan" start goal diag]
  obtain res where
    r: "astar_run (if diag then euclid else manhattan) grid start goal diag = Some (Inr res)" ..
  with astar_run_props(4,6)[OF r]
  show "\<exists>res. runAStar grid start goal diag = Some (Inr res) \<and> visited res \<noteq> []
            \<and> (goal \<notin> set (visited res) \<longrightarrow> path res = [])"
    unfolding runAStar_astar_run by blast
next
  fix rows cols st0 st
  assume "dijkstra_loop grid rows cols goal diag st0 = Some (Inr st)" "goal \<notin> set (dvisited st)"
  then show "pq st = []" by (rule dijkstra_loop_exhausted)
next
  fix h rows cols st0 st
  assume "astar_loop h grid rows cols goal diag st0 = Some (Inr st)" "goal \<notin> set (avisited st)"
  then show "apq st = []" by (rule astar_loop_exhausted)
qed

lemma walled_off_dijkstra:
  "runDijkstra [[\<lparr>wall = False, weight = Some 1\<rparr>, \<lparr>wall = True, weight = Some 1\<rparr>,
                 \<lparr>wall = False, weight = Some 1\<rparr>]] (0, 0) (0, 2) False
     = Some (Inr \<lparr>visited = [(0, 0)], path = []\<rparr>)"
  by code_simp

theorem unreachable_goal_result_witness:
  "rect [[\<lparr>wall = False, weight = Some 1\<rparr>, \<lparr>wall = True, weight = Some 1\<rparr>,
          \<lparr>wall = False, weight = Some 1\<rparr>]]
   \<and> (\<exists>res. runDijkstra [[\<lparr>wall = False, weight = Some 1\<rparr>, \<lparr>wall = True, weight = Some 1\<rparr>,
                 \<lparr>wall = False, weight = Some 1\<rparr>]] (0, 0) (0, 2) False = Some (Inr res)
          \<and> visited res \<noteq> [] \<and> (0, 2) \<notin> set (visited res) \<and> path res = [])"
proof -
  let ?g = "[[\<lparr>wall = False, weight = Some 1\<rparr>, \<lparr>wall = True, weight = Some 1\<rparr>,
                 \<lparr>wall = False, weight = Some 1\<rparr>]]"
  have r: "rect ?g" by (simp add: rect_def)
  have n: "?g \<noteq> []" by simp
  from unreachable_goal_result[OF n r, of "(0, 0)" "(0, 2)" False] walled_off_dijkstra r
  show ?thesis by auto
qed

section \<open>Occupied start or goal\<close>

lemma astar_run_walled_goal:
  assumes "rect grid" and "cellAt grid goal = Some cl" and "wall cl"
  shows "\<exists>res. astar_run h grid start goal diag = Some (Inr res) \<and> path res = []"
proof -
  from assms(2) have "grid \<noteq> []" by (auto simp: cellAt_def split: if_splits)
  from astar_run_returns[OF this assms(1), of h start goal diag]
  obtain res where r: "astar_run h grid start goal diag = Some (Inr res)" ..
  have "path res = []"
  proof (rule ccontr)
    assume "path res \<noteq> []"
    from astar_run_goal_free[OF r this] assms(2,3) show False by (simp add: freeCell_def)
  qed
  with r show ?thesis by blast
qed

text \<open>
  C6, as stated, fails for an occupied start: on the grid below the start cell is a wall,
  and both searches return a path of two cells.
\<close>

theorem occupied_start_counterexample:
  "cellAt [[\<lparr>wall = True, weight = Some 1\<rparr>, \<lparr>wall = False, weight = Some 1\<rparr>]] (0, 0)
     = Some \<lparr>wall = True, weight = Some 1\<rparr>
   \<and> runDijkstra [[\<lparr>wall = True, weight = Some 1\<rparr>, \<lparr>wall = False, weight = Some 1\<rparr>]]
       (0, 0) (0, 1) False
     = Some (Inr \<lparr>visited = [(0, 0), (0, 1)], path = [(0, 0), (0, 1)]\<rparr>)
   \<and> runAStar [[\<lparr>wall = True, weight = Some 1\<rparr>, \<lparr>wall = False, weight = Some 1\<rparr>]]
       (0, 0) (0, 1) False
     = Some (Inr \<lparr>visited = [(0, 0), (0, 1)], path = [(0, 0), (0, 1)]\<rparr>)"
proof (intro conjI)
  show "cellAt [[\<lparr>wall = True, weight = Some 1\<rparr>, \<lparr>wall = False, weight = Some 1\<rparr>]] (0, 0)
     = Some \<lparr>wall = True, weight = Some 1\<rparr>"
    by (simp add: cellAt_def)
  show "runDijkstra [[\<lparr>wall = True, weight = Some 1\<rparr>, \<lparr>wall = False, weight = Some 1\<rparr>]]
       (0, 0) (0, 1) False
     = Some (Inr \<lparr>visited = [(0, 0), (0, 1)], path = [(0, 0), (0, 1)]\<rparr>)"
    by code_simp
  show "runAStar [[\<lparr>wall = True, weight = Some 1\<rparr>, \<lparr>wall = False, weight = Some 1\<rparr>]]
       (0, 0) (0, 1) False
     = Some (Inr \<lparr>visited = [(0, 0), (0, 1)], path = [(0, 0), (0, 1)]\<rparr>)"
    by code_simp
qed

text \<open>
  C6, amended. On a rectangular grid whose goal cell is occupied, Dijkstra and A* return a
  result with the empty path, whatever the start.
\<close>

theorem occupied_goal_empty_path:
  assumes "rect grid" and "cellAt grid goal = Some cl" and "wall cl"
  shows "(\<exists>res. runDijkstra grid start goal diag = Some (Inr res) \<and> path res = [])
       \<and> (\<exists>res. runAStar grid start goal diag = Some (Inr res) \<and> path res = [])"
  unfolding runDijkstra_astar_run runAStar_astar_run
  using astar_run_walled_goal[OF assms] by blast

theorem occupied_goal_empty_path_witness:
  "rect [[\<lparr>wall = False, weight = Some 1\<rparr>, \<lparr>wall = True, weight = Some 1\<rparr>]]
   \<and> cellAt [[\<lparr>wall = False, weight = Some 1\<rparr>, \<lparr>wall = True, weight = Some 1\<rparr>]] (0, 1)
       = Some \<lparr>wall = True, weight = Some 1\<rparr>
   \<and> (\<exists>res. runDijkstra [[\<lparr>wall = False, weight = Some 1\<rparr>, \<lparr>wall = True, weight = Some 1\<rparr>]]
          (0, 0) (0, 1) False = Some (Inr res) \<and> path res = [])
   \<and> (\<exists>res. runAStar [[\<lparr>wall = False, weight = Some 1\<rparr>, \<lparr>wall = True, weight = Some 1\<rparr>]]
          (0, 0) (0, 1) False = Some (Inr res) \<and> path res = [])"
proof -
  let ?g = "[[\<lparr>wall = False, weight = Some 1\<rparr>, \<lparr>wall = True, weight = Some 1\<rparr>]]"
  have r: "rect ?g" by (simp add: rect_def)
  have c: "cellAt ?g (0, 1) = Some \<lparr>wall = True, weight = Some 1\<rparr>" by (simp add: cellAt_def)
  have w: "wall \<lparr>wall = True, weight = Some 1\<rparr>" by simp
  from occupied_goal_empty_path[OF r c w, of "(0, 0)" False] r c show ?thesis by blast
qed

section \<open>The line walk\<close>

lemma div_bounds:
  fixes a m :: int
  assumes "0 < m"
  shows "m * (a div m) \<le> a" and "a < m * (a div m) + m"
proof -
  have "a = m * (a div m) + a mod m" by simp
  moreover have "0 \<le> a mod m" "a mod m < m" using assms by simp_all
  ultimately show "m * (a div m) \<le> a" "a < m * (a div m) + m" by linarith+
qed

lemma div_unique_bounds:
  fixes a m q :: int
  assumes "0 < m" "m * q \<le> a" "a < m * q + m"
  shows "a div m = q"
proof -
  have "a = m * q + (a - m * q)" by simp
  moreover have "0 \<le> a - m * q" "a - m * q < m" using assms by simp_all
  ultimately show ?thesis using int_div_pos_eq by blast
qed

lemma xmajor_step:
  fixes dx dy k :: int
  assumes dy0: "0 \<le> dy" and le: "dy \<le> dx" and dx0: "0 < dx" and k0: "0 \<le> k"
  defines "Y \<equiv> \<lambda>k. (2 * k * dy + dx - 1) div (2 * dx)"
  defines "E \<equiv> \<lambda>k. dx - dy - k * dy + Y k * dx"
  shows "E k * 2 > - dy"
    and "E k * 2 < dx \<Longrightarrow> Y (k + 1) = Y k + 1 \<and> E (k + 1) = E k - dy + dx"
    and "\<not> E k * 2 < dx \<Longrightarrow> Y (k + 1) = Y k \<and> E (k + 1) = E k - dy"
proof -
  have m: "0 < 2 * dx" using dx0 by simp
  note b = div_bounds[OF m, of "2 * k * dy + dx - 1"]
  have lo: "2 * k * dy - dx \<le> 2 * dx * Y k" and hi: "2 * dx * Y k < 2 * k * dy + dx"
    using b unfolding Y_def by linarith+
  have E2: "E k * 2 = 2 * dx - 2 * dy - 2 * k * dy + 2 * dx * Y k"
    unfolding E_def by (simp add: algebra_simps)
  have k1: "2 * (k + 1) * dy = 2 * k * dy + 2 * dy" by (simp add: algebra_simps)
  have d1: "2 * dx * (q + 1) = 2 * dx * q + 2 * dx" for q by (simp add: algebra_simps)
  show "E k * 2 > - dy"
  proof (cases "dx = dy")
    case True
    have "2 * dx * k \<le> 2 * k * dx + dx - 1" "2 * k * dx + dx - 1 < 2 * dx * k + 2 * dx"
      using dx0 by (simp_all add: algebra_simps)
    then have "Y k = k" unfolding Y_def True[symmetric]
      by (intro div_unique_bounds[OF m])
    with True dx0 show ?thesis unfolding E2 by (simp add: algebra_simps)
  next
    case False
    with le have "dy < dx" by simp
    with lo show ?thesis unfolding E2 by linarith
  qed
  show "Y (k + 1) = Y k + 1 \<and> E (k + 1) = E k - dy + dx" if "E k * 2 < dx"
  proof -
    from that have "2 * dx * (Y k + 1) \<le> 2 * (k + 1) * dy + dx - 1"
      unfolding E2 k1 d1 by linarith
    moreover from lo le have "2 * (k + 1) * dy + dx - 1 < 2 * dx * (Y k + 1) + 2 * dx"
      unfolding k1 d1 by linarith
    ultimately have "Y (k + 1) = Y k + 1" unfolding Y_def
      by (intro div_unique_bounds[OF m])
    then show ?thesis unfolding E_def by (simp add: algebra_simps)
  qed
  show "Y (k + 1) = Y k \<and> E (k + 1) = E k - dy" if "\<not> E k * 2 < dx"
  proof -
    from that have "2 * (k + 1) * dy + dx - 1 < 2 * dx * Y k + 2 * dx"
      unfolding E2 k1 by linarith
    moreover from hi dy0 have "2 * dx * Y k \<le> 2 * (k + 1) * dy + dx - 1"
      unfolding k1 by linarith
    ultimately have "Y (k + 1) = Y k" unfolding Y_def
      by (intro div_unique_bounds[OF m])
    then show ?thesis unfolding E_def by (simp add: algebra_simps)
  qed
qed

lemma lineFree_loop_xmajor:
  fixes ax ay dx dy sx sy :: int
  assumes dy0: "0 \<le> dy" and le: "dy \<le> dx" and dx0: "0 < dx" and sx: "sx \<noteq> 0"
  defines "Y \<equiv> \<lambda>k. (2 * k * dy + dx - 1) div (2 * dx)"
  defines "cell \<equiv> \<lambda>k. (ax + sx * k, ay + sy * Y k)"
  assumes b: "b = cell dx"
  shows "0 \<le> k \<Longrightarrow> k + int n = dx \<Longrightarrow>
    lineFree_loop grid rows cols b (dx, dy) (sx, sy) (cell k) (dx - dy - k * dy + Y k * dx)
      = Some (allFree grid rows cols (map cell [k..dx]))"
proof (induction n arbitrary: k)
  case 0
  then have k: "k = dx" by simp
  have u: "[dx..dx] = [dx]" by (simp add: upto_rec1)
  show ?case unfolding k b u
    by (subst lineFree_loop.simps) (simp split: sum.splits)
next
  case (Suc n)
  then have lt: "k < dx" and k0: "0 \<le> k" by simp_all
  have up: "[k..dx] = k # [k + 1..dx]" using lt by (simp add: upto_rec1)
  have ne: "\<not> (fst (cell k) = fst b \<and> snd (cell k) = snd b)"
    using lt sx by (simp add: b cell_def)
  have Yk: "(2 * j * dy + dx - 1) div (2 * dx) = Y j" for j by (simp add: Y_def)
  note st = xmajor_step[OF dy0 le dx0 k0, unfolded Yk]
  let ?E = "dx - dy - k * dy + Y k * dx"
  have nxt: "(let e2 = ?E * 2;
                (err1, x0) = (if e2 > - snd (dx, dy) then (?E - snd (dx, dy), fst (cell k) + fst (sx, sy))
                              else (?E, fst (cell k)));
                (err2, y0) = (if e2 < fst (dx, dy) then (err1 + fst (dx, dy), snd (cell k) + snd (sx, sy))
                              else (err1, snd (cell k)))
            in lineFree_loop grid rows cols b (dx, dy) (sx, sy) (x0, y0) err2)
        = lineFree_loop grid rows cols b (dx, dy) (sx, sy) (cell (k + 1))
            (dx - dy - (k + 1) * dy + Y (k + 1) * dx)"
  proof (cases "?E * 2 < dx")
    case True
    from st(2)[OF True] st(1) True show ?thesis
      by (simp add: Let_def cell_def algebra_simps)
  next
    case False
    from st(3)[OF False] st(1) False show ?thesis
      by (simp add: Let_def cell_def algebra_simps)
  qed
  have ih: "lineFree_loop grid rows cols b (dx, dy) (sx, sy) (cell (k + 1))
            (dx - dy - (k + 1) * dy + Y (k + 1) * dx)
      = Some (allFree grid rows cols (map cell [k + 1..dx]))"
    using Suc.prems by (intro Suc.IH) simp_all
  show ?case
    unfolding up
    by (subst lineFree_loop.simps) (simp only: nxt ih ne, simp split: sum.splits)
qed

lemma lineFree_loop_ymajor:
  fixes ax ay dx dy sx sy :: int
  assumes dx0: "0 \<le> dx" and lt: "dx < dy" and sy: "sy \<noteq> 0"
  defines "X \<equiv> \<lambda>k. (2 * k * dx + dy - 1) div (2 * dy)"
  defines "cell \<equiv> \<lambda>k. (ax + sx * X k, ay + sy * k)"
  assumes b: "b = cell dy"
  shows "0 \<le> k \<Longrightarrow> k + int n = dy \<Longrightarrow>
    lineFree_loop grid rows cols b (dx, dy) (sx, sy) (cell k) (- (dy - dx - k * dx + X k * dy))
      = Some (allFree grid rows cols (map cell [k..dy]))"
proof (induction n arbitrary: k)
  case 0
  then have k: "k = dy" by simp
  have u: "[dy..dy] = [dy]" by (simp add: upto_rec1)
  show ?case unfolding k b u
    by (subst lineFree_loop.simps) (simp split: sum.splits)
next
  case (Suc n)
  then have lt': "k < dy" and k0: "0 \<le> k" by simp_all
  have up: "[k..dy] = k # [k + 1..dy]" using lt' by (simp add: upto_rec1)
  have ne: "\<not> (fst (cell k) = fst b \<and> snd (cell k) = snd b)"
    using lt' sy by (simp add: b cell_def)
  have le: "dx \<le> dy" and dy0: "0 < dy" using dx0 lt by simp_all
  have Xk: "(2 * j * dx + dy - 1) div (2 * dy) = X j" for j by (simp add: X_def)
  note st = xmajor_step[OF dx0 le dy0 k0, unfolded Xk]
  let ?F = "dy - dx - k * dx + X k * dy"
  have nxt: "(let e2 = (- ?F) * 2;
                (err1, x0) = (if e2 > - snd (dx, dy) then (- ?F - snd (dx, dy), fst (cell k) + fst (sx, sy))
                              else (- ?F, fst (cell k)));
                (err2, y0) = (if e2 < fst (dx, dy) then (err1 + fst (dx, dy), snd (cell k) + snd (sx, sy))
                              else (err1, snd (cell k)))
            in lineFree_loop grid rows cols b (dx, dy) (sx, sy) (x0, y0) err2)
        = lineFree_loop grid rows cols b (dx, dy) (sx, sy) (cell (k + 1))
            (- (dy - dx - (k + 1) * dx + X (k + 1) * dy))"
  proof (cases "?F * 2 < dy")
    case True
    from st(2)[OF True] st(1) True show ?thesis
      by (simp add: Let_def cell_def algebra_simps)
  next
    case False
    from st(3)[OF False] st(1) False show ?thesis
      by (simp add: Let_def cell_def algebra_simps)
  qed
  have ih: "lineFree_loop grid rows cols b (dx, dy) (sx, sy) (cell (k + 1))
            (- (dy - dx - (k + 1) * dx + X (k + 1) * dy))
      = Some (allFree grid rows cols (map cell [k + 1..dy]))"
    using Suc.prems by (intro Suc.IH) simp_all
  show ?case
    unfolding up
    by (subst lineFree_loop.simps) (simp only: nxt ih ne, simp split: sum.splits)
qed

lemma major_ends:
  fixes d e :: int
  assumes "0 < d" "0 \<le> e" "e \<le> d"
  shows "(2 * 0 * e + d - 1) div (2 * d) = 0" and "(2 * d * e + d - 1) div (2 * d) = e"
proof -
  have m: "0 < 2 * d" using assms by simp
  show "(2 * 0 * e + d - 1) div (2 * d) = 0"
    by (rule div_unique_bounds[OF m]) (use assms in simp_all)
  have "2 * d * e \<le> 2 * d * e + d - 1" "2 * d * e + d - 1 < 2 * d * e + 2 * d"
    using assms by simp_all
  then show "(2 * d * e + d - 1) div (2 * d) = e"
    by (rule div_unique_bounds[OF m])
qed

lemma lineFree_bresenham:
  "lineFree grid rows cols a b = Some (allFree grid rows cols (bresenham a b))"
proof -
  define dx where "dx = \<bar>fst b - fst a\<bar>"
  define dy where "dy = \<bar>snd b - snd a\<bar>"
  define sx :: int where "sx = (if fst a < fst b then 1 else -1)"
  define sy :: int where "sy = (if snd a < snd b then 1 else -1)"
  have lf: "lineFree grid rows cols a b
      = lineFree_loop grid rows cols b (dx, dy) (sx, sy) a (dx - dy)"
    by (simp add: lineFree_def Let_def dx_def dy_def sx_def sy_def)
  have bx: "fst b = fst a + sx * dx" and by': "snd b = snd a + sy * dy"
    by (auto simp: dx_def dy_def sx_def sy_def)
  have s0: "sx \<noteq> 0" "sy \<noteq> 0" by (simp_all add: sx_def sy_def)
  have d0: "0 \<le> dx" "0 \<le> dy" by (simp_all add: dx_def dy_def)
  show ?thesis
  proof (cases "dx = 0 \<and> dy = 0")
    case True
    then have "a = b" using bx by' by (simp add: prod_eq_iff)
    moreover have "bresenham a b = [a]" using True
      by (simp add: bresenham_def Let_def dx_def dy_def)
    ultimately show ?thesis unfolding lf
      by (subst lineFree_loop.simps) (simp split: sum.splits)
  next
    case nz: False
    show ?thesis
    proof (cases "dy \<le> dx")
      case True
      with nz d0 have dx0: "0 < dx" by simp
      let ?cell = "\<lambda>k. (fst a + sx * k, snd a + sy * ((2 * k * dy + dx - 1) div (2 * dx)))"
      note e = major_ends[OF dx0 d0(2) True]
      have bc: "b = ?cell dx" using bx by' e(2) by (simp add: prod_eq_iff)
      have a0: "a = ?cell 0" using e(1) by (simp add: prod_eq_iff)
      have br: "bresenham a b = map ?cell [0..dx]" using nz True
        by (simp add: bresenham_def Let_def dx_def dy_def sx_def sy_def)
      from lineFree_loop_xmajor[OF d0(2) True dx0 s0(1) bc, of 0 "nat dx" grid rows cols] d0 e(1)
      have "lineFree_loop grid rows cols b (dx, dy) (sx, sy) (?cell 0) (dx - dy)
          = Some (allFree grid rows cols (map ?cell [0..dx]))"
        by simp
      then show ?thesis unfolding lf br a0[symmetric] .
    next
      case False
      then have lt: "dx < dy" by simp
      then have dy0: "0 < dy" using d0 by simp
      let ?cell = "\<lambda>k. (fst a + sx * ((2 * k * dx + dy - 1) div (2 * dy)), snd a + sy * k)"
      from lt have le: "dx \<le> dy" by simp
      note e = major_ends[OF dy0 d0(1) le]
      have e2: "(2 * dy * dx + dy - 1) div (2 * dy) = dx" using e(2) .
      have bc: "b = ?cell dy" using bx by' e2 by (simp add: prod_eq_iff)
      have a0: "a = ?cell 0" using e(1) by (simp add: prod_eq_iff)
      have br: "bresenham a b = map ?cell [0..dy]" using nz False
        by (simp add: bresenham_def Let_def dx_def dy_def sx_def sy_def)
      from lineFree_loop_ymajor[OF d0(1) lt s0(2) bc, of 0 "nat dy" grid rows cols] d0 e(1)
      have "lineFree_loop grid rows cols b (dx, dy) (sx, sy) (?cell 0) (dx - dy)
          = Some (allFree grid rows cols (map ?cell [0..dy]))"
        by simp
      then show ?thesis unfolding lf br a0[symmetric] .
    qed
  qed
qed

lemma successively_map_upto:
  fixes k n :: int
  assumes "\<And>j. k \<le> j \<Longrightarrow> j < n \<Longrightarrow> P (f j) (f (j + 1))"
  shows "successively P (map f [k..n])"
  using assms
proof (induction "nat (n - k)" arbitrary: k)
  case 0
  then show ?case by (cases "k = n") (simp_all add: upto_rec1)
next
  case (Suc m)
  then have lt: "k < n" by simp
  then have u: "[k..n] = k # [k + 1..n]" by (simp add: upto_rec1)
  have h: "hd (map f [k + 1..n]) = f (k + 1)" using lt by (simp add: upto_rec1[of "k + 1"])
  have "successively P (map f [k + 1..n])"
    using Suc.hyps(2) Suc.prems by (intro Suc.hyps(1)) auto
  with Suc.prems[of k] lt h show ?case unfolding u by (simp add: successively_Cons)
qed

lemma dirs8_mem:
  "(u, v) \<in> set DIRS8 \<longleftrightarrow>
     (u = 1 \<and> v = 0) \<or> (u = -1 \<and> v = 0) \<or> (u = 0 \<and> v = 1) \<or> (u = 0 \<and> v = -1)
     \<or> (u = 1 \<and> v = 1) \<or> (u = 1 \<and> v = -1) \<or> (u = -1 \<and> v = 1) \<or> (u = -1 \<and> v = -1)"
  unfolding DIRS8_def DIRS4_def by simp

lemma adjacent_king:
  assumes "u = 1 \<or> u = -1 \<or> u = 0" "v = 1 \<or> v = -1 \<or> v = 0" "u \<noteq> 0 \<or> v \<noteq> 0"
  shows "adjacent True (x, y) (x + u, y + v)"
proof -
  have "(u, v) \<in> set DIRS8"
    unfolding dirs8_mem using assms by blast
  then show ?thesis by (simp add: adjacent_def)
qed

lemma king_step:
  fixes sx sy v :: int
  assumes s1: "sx = 1 \<or> sx = -1" and s2: "sy = 1 \<or> sy = -1" and v: "v = 0 \<or> v = 1"
  shows "adjacent True (x, y) (x + sx, y + sy * v)"
    and "adjacent True (x, y) (x + sx * v, y + sy)"
proof -
  have a: "sy * v = 1 \<or> sy * v = -1 \<or> sy * v = 0" using s2 v by (elim disjE) simp_all
  have b: "sx * v = 1 \<or> sx * v = -1 \<or> sx * v = 0" using s1 v by (elim disjE) simp_all
  have c: "sx \<noteq> 0" "sy \<noteq> 0" using s1 s2 by (elim disjE; simp)+
  from s1 have s1': "sx = 1 \<or> sx = -1 \<or> sx = 0" by (elim disjE) simp_all
  from s2 have s2': "sy = 1 \<or> sy = -1 \<or> sy = 0" by (elim disjE) simp_all
  from c have c1: "sx \<noteq> 0 \<or> sy * v \<noteq> 0" and c2: "sx * v \<noteq> 0 \<or> sy \<noteq> 0" by simp_all
  show "adjacent True (x, y) (x + sx, y + sy * v)" by (rule adjacent_king[OF s1' a c1])
  show "adjacent True (x, y) (x + sx * v, y + sy)" by (rule adjacent_king[OF b s2' c2])
qed

lemma bresenham_shape:
  "hd (bresenham a b) = a" "last (bresenham a b) = b"
  "successively (adjacent True) (bresenham a b)"
proof -
  define dx where "dx = \<bar>fst b - fst a\<bar>"
  define dy where "dy = \<bar>snd b - snd a\<bar>"
  define sx :: int where "sx = (if fst a < fst b then 1 else -1)"
  define sy :: int where "sy = (if snd a < snd b then 1 else -1)"
  have bx: "fst b = fst a + sx * dx" and by': "snd b = snd a + sy * dy"
    by (auto simp: dx_def dy_def sx_def sy_def)
  have s1: "sx = 1 \<or> sx = -1" "sy = 1 \<or> sy = -1" by (simp_all add: sx_def sy_def)
  have d0: "0 \<le> dx" "0 \<le> dy" by (simp_all add: dx_def dy_def)
  have "hd (bresenham a b) = a \<and> last (bresenham a b) = b
      \<and> successively (adjacent True) (bresenham a b)"
  proof (cases "dx = 0 \<and> dy = 0")
    case True
    then have "a = b" using bx by' by (simp add: prod_eq_iff)
    moreover have "bresenham a b = [a]" using True
      by (simp add: bresenham_def Let_def dx_def dy_def)
    ultimately show ?thesis by simp
  next
    case nz: False
    show ?thesis
    proof (cases "dy \<le> dx")
      case True
      with nz d0 have dx0: "0 < dx" by simp
      define cell where
        "cell = (\<lambda>k. (fst a + sx * k, snd a + sy * ((2 * k * dy + dx - 1) div (2 * dx))))"
      note e = major_ends[OF dx0 d0(2) True]
      have bc: "cell dx = b" using bx by' e(2) by (simp add: prod_eq_iff cell_def)
      have a0: "cell 0 = a" using e(1) by (simp add: prod_eq_iff cell_def)
      have br: "bresenham a b = map cell [0..dx]" using nz True
        by (simp add: bresenham_def Let_def dx_def dy_def sx_def sy_def cell_def)
      have u0: "[0..dx] = 0 # [1..dx]" using dx0 by (simp add: upto_rec1)
      have ul: "[0..dx] = [0..dx - 1] @ [dx]" using dx0 by (simp add: upto_rec2)
      have adj: "adjacent True (cell j) (cell (j + 1))" if "0 \<le> j" for j
      proof -
        note st = xmajor_step[OF d0(2) True dx0 that]
        from st(2,3) have "(2 * (j + 1) * dy + dx - 1) div (2 * dx)
              = (2 * j * dy + dx - 1) div (2 * dx) + 1
            \<or> (2 * (j + 1) * dy + dx - 1) div (2 * dx) = (2 * j * dy + dx - 1) div (2 * dx)"
          by blast
        then obtain v where v: "v = 0 \<or> v = 1"
          "(2 * (j + 1) * dy + dx - 1) div (2 * dx) = (2 * j * dy + dx - 1) div (2 * dx) + v"
          by auto
        have "cell (j + 1) = (fst (cell j) + sx, snd (cell j) + sy * v)"
          unfolding cell_def v(2) by (simp add: algebra_simps)
        moreover have "adjacent True (fst (cell j), snd (cell j))
            (fst (cell j) + sx, snd (cell j) + sy * v)"
          by (rule king_step(1)[OF s1 v(1)])
        ultimately show ?thesis by simp
      qed
      have "successively (adjacent True) (map cell [0..dx])"
        by (rule successively_map_upto) (rule adj)
      moreover have "hd (map cell [0..dx]) = a" unfolding u0 using a0 by simp
      moreover have "last (map cell [0..dx]) = b" unfolding ul using bc by simp
      ultimately show ?thesis unfolding br by simp
    next
      case False
      then have lt: "dx < dy" by simp
      then have dy0: "0 < dy" using d0 by simp
      from lt have le: "dx \<le> dy" by simp
      define cell where
        "cell = (\<lambda>k. (fst a + sx * ((2 * k * dx + dy - 1) div (2 * dy)), snd a + sy * k))"
      note e = major_ends[OF dy0 d0(1) le]
      have bc: "cell dy = b" using bx by' e(2) by (simp add: prod_eq_iff cell_def)
      have a0: "cell 0 = a" using e(1) by (simp add: prod_eq_iff cell_def)
      have br: "bresenham a b = map cell [0..dy]" using nz False
        by (simp add: bresenham_def Let_def dx_def dy_def sx_def sy_def cell_def)
      have u0: "[0..dy] = 0 # [1..dy]" using dy0 by (simp add: upto_rec1)
      have ul: "[0..dy] = [0..dy - 1] @ [dy]" using dy0 by (simp add: upto_rec2)
      have adj: "adjacent True (cell j) (cell (j + 1))" if "0 \<le> j" for j
      proof -
        note st = xmajor_step[OF d0(1) le dy0 that]
        from st(2,3) have "(2 * (j + 1) * dx + dy - 1) div (2 * dy)
              = (2 * j * dx + dy - 1) div (2 * dy) + 1
            \<or> (2 * (j + 1) * dx + dy - 1) div (2 * dy) = (2 * j * dx + dy - 1) div (2 * dy)"
          by blast
        then obtain v where v: "v = 0 \<or> v = 1"
          "(2 * (j + 1) * dx + dy - 1) div (2 * dy) = (2 * j * dx + dy - 1) div (2 * dy) + v"
          by auto
        have "cell (j + 1) = (fst (cell j) + sx * v, snd (cell j) + sy)"
          unfolding cell_def v(2) by (simp add: algebra_simps)
        moreover have "adjacent True (fst (cell j), snd (cell j))
            (fst (cell j) + sx * v, snd (cell j) + sy)"
          by (rule king_step(2)[OF s1 v(1)])
        ultimately show ?thesis by simp
      qed
      have "successively (adjacent True) (map cell [0..dy])"
        by (rule successively_map_upto) (rule adj)
      moreover have "hd (map cell [0..dy]) = a" unfolding u0 using a0 by simp
      moreover have "last (map cell [0..dy]) = b" unfolding ul using bc by simp
      ultimately show ?thesis unfolding br by simp
    qed
  qed
  then show "hd (bresenham a b) = a" "last (bresenham a b) = b"
    "successively (adjacent True) (bresenham a b)" by simp_all
qed

lemma allFree_True:
  "allFree grid rows cols ps = Inr True \<longleftrightarrow> (\<forall>p \<in> set ps. isFree grid rows cols p = Inr True)"
  by (induction ps) (auto split: sum.splits)

lemma allFree_False:
  "allFree grid rows cols ps = Inr False \<longleftrightarrow>
     (\<exists>i < length ps. isFree grid rows cols (ps ! i) = Inr False
        \<and> (\<forall>j < i. isFree grid rows cols (ps ! j) = Inr True))"
proof (induction ps)
  case Nil
  then show ?case by simp
next
  case (Cons p ps)
  show ?case
  proof (cases "isFree grid rows cols p")
    case (Inl e)
    then show ?thesis by (auto simp: nth_Cons split: nat.splits)
  next
    case (Inr fr)
    show ?thesis
    proof (cases fr)
      case True
      have "(\<exists>i < length (p # ps). isFree grid rows cols ((p # ps) ! i) = Inr False
          \<and> (\<forall>j < i. isFree grid rows cols ((p # ps) ! j) = Inr True))
        \<longleftrightarrow> (\<exists>i < length ps. isFree grid rows cols (ps ! i) = Inr False
          \<and> (\<forall>j < i. isFree grid rows cols (ps ! j) = Inr True))" (is "?L \<longleftrightarrow> ?R")
      proof
        assume ?L
        then obtain i where i: "i < length (p # ps)"
          "isFree grid rows cols ((p # ps) ! i) = Inr False"
          "\<forall>j < i. isFree grid rows cols ((p # ps) ! j) = Inr True" by blast
        with Inr True obtain i' where i': "i = Suc i'" by (cases i) auto
        with i have "i' < length ps" "isFree grid rows cols (ps ! i') = Inr False" by simp_all
        moreover have "isFree grid rows cols (ps ! j) = Inr True" if "j < i'" for j
          using i(3)[rule_format, of "Suc j"] that i' by simp
        ultimately show ?R by blast
      next
        assume ?R
        then obtain i where i: "i < length ps" "isFree grid rows cols (ps ! i) = Inr False"
          "\<forall>j < i. isFree grid rows cols (ps ! j) = Inr True" by blast
        have "isFree grid rows cols ((p # ps) ! j) = Inr True" if "j < Suc i" for j
          using that i(3) Inr True by (cases j) auto
        with i(1,2) show ?L by (intro exI[of _ "Suc i"]) simp
      qed
      with Cons Inr True show ?thesis by simp
    next
      case False
      with Inr show ?thesis by (auto intro: exI[of _ 0])
    qed
  qed
qed

section \<open>The collision check\<close>

text \<open>
  C8. The collision check \<open>lineFree\<close> from the nearest node \<open>a\<close> to the new point \<open>b\<close> tests
  exactly the cells of the integer line rasterisation from \<open>a\<close> to \<open>b\<close>, in order from \<open>a\<close>,
  and stops at the first cell that is not free. The rasterisation starts at \<open>a\<close>, ends at
  the new point \<open>b\<close> and moves by one cell (a king's move) at each step. So the check
  accepts exactly when every cell of the walk, the new point included, is free, and it
  rejects exactly when some cell of the walk is not free and all cells before it are.
\<close>

theorem lineFree_is_line_walk:
  "lineFree grid rows cols a b = Some (allFree grid rows cols (bresenham a b))
   \<and> hd (bresenham a b) = a \<and> last (bresenham a b) = b
   \<and> successively (adjacent True) (bresenham a b)
   \<and> (lineFree grid rows cols a b = Some (Inr True)
        \<longleftrightarrow> (\<forall>p \<in> set (bresenham a b). isFree grid rows cols p = Inr True))
   \<and> (lineFree grid rows cols a b = Some (Inr False)
        \<longleftrightarrow> (\<exists>i < length (bresenham a b).
               isFree grid rows cols (bresenham a b ! i) = Inr False
               \<and> (\<forall>j < i. isFree grid rows cols (bresenham a b ! j) = Inr True)))"
  using lineFree_bresenham[of grid rows cols a b] bresenham_shape[of a b]
    allFree_True[of grid rows cols "bresenham a b"]
    allFree_False[of grid rows cols "bresenham a b"]
  by simp

lemma bresenham_row3: "bresenham (0, 0) (0, 2) = [(0, 0), (0, 1), (0, 2)]"
  by code_simp

theorem lineFree_is_line_walk_witness:
  "bresenham (0, 0) (0, 2) = [(0, 0), (0, 1), (0, 2)]
   \<and> isFree [[\<lparr>wall = False, weight = Some 1\<rparr>, \<lparr>wall = True, weight = Some 1\<rparr>,
               \<lparr>wall = False, weight = Some 1\<rparr>]] 1 3 (0, 1) = Inr False
   \<and> lineFree [[\<lparr>wall = False, weight = Some 1\<rparr>, \<lparr>wall = True, weight = Some 1\<rparr>,
               \<lparr>wall = False, weight = Some 1\<rparr>]] 1 3 (0, 0) (0, 2) = Some (Inr False)"
proof -
  let ?g = "[[\<lparr>wall = False, weight = Some 1\<rparr>, \<lparr>wall = True, weight = Some 1\<rparr>,
               \<lparr>wall = False, weight = Some 1\<rparr>]]"
  have f: "isFree ?g 1 3 (0, 0) = Inr True" "isFree ?g 1 3 (0, 1) = Inr False"
    by (simp_all add: isFree_def inBounds_def cellAt_def)
  from lineFree_is_line_walk[of ?g 1 3 "(0, 0)" "(0, 2)"] f bresenham_row3
  show ?thesis by simp
qed

section \<open>Determinism of the searches\<close>



section \<open>The tree of RRT*\<close>

lemma euclid_nonneg: "0 \<le> euclid a b"
  by (simp add: euclid_def)

lemma anchored_append: "anchored ns i \<Longrightarrow> anchored (ns @ xs) i"
proof (induction rule: anchored.induct)
  case none
  show ?case by (rule anchored.none)
next
  case (node i)
  show ?case
  proof (rule anchored.node)
    show "0 \<le> i" by fact
    show "nat i < length (ns @ xs)" using node.hyps(2) by simp
    show "anchored (ns @ xs) (parent ((ns @ xs) ! nat i))"
      using node.IH node.hyps(2) by (simp add: nth_append)
  qed
qed

lemma linked_append: "linked grid rows cols ns n \<Longrightarrow> linked grid rows cols (ns @ xs) n"
  unfolding linked_def by (auto simp: nth_append)

lemma nearest_loop_range:
  "nearest_loop p ns i best bd = best
     \<or> (i \<le> nearest_loop p ns i best bd \<and> nearest_loop p ns i best bd < i + length ns)"
proof (induction ns arbitrary: i best bd)
  case Nil
  then show ?case by simp
next
  case (Cons n ns)
  have e: "nearest_loop p (n # ns) i best bd
      = (if (case bd of None \<Rightarrow> True | Some b \<Rightarrow> euclid p (pt n) < b)
         then nearest_loop p ns (i + 1) i (Some (euclid p (pt n)))
         else nearest_loop p ns (i + 1) best bd)"
    by (simp add: Let_def)
  show ?case
  proof (cases "case bd of None \<Rightarrow> True | Some b \<Rightarrow> euclid p (pt n) < b")
    case True
    then have "nearest_loop p (n # ns) i best bd
        = nearest_loop p ns (i + 1) i (Some (euclid p (pt n)))"
      unfolding e by simp
    with Cons[of "i + 1" i "Some (euclid p (pt n))"] show ?thesis
      by (simp del: nearest_loop.simps) linarith
  next
    case False
    then have "nearest_loop p (n # ns) i best bd = nearest_loop p ns (i + 1) best bd"
      unfolding e by simp
    with Cons[of "i + 1" best bd] show ?thesis
      by (simp del: nearest_loop.simps) linarith
  qed
qed

lemma nearest_lt: "ns \<noteq> [] \<Longrightarrow> nearest ns p < length ns"
  using nearest_loop_range[of p ns 0 0 None] by (auto simp: nearest_def)


lemma anchored_update_below:
  assumes "anchored ns x"
    and mono: "\<And>i. i < length ns \<Longrightarrow> parent (ns ! i) \<noteq> -1 \<Longrightarrow>
                 0 \<le> parent (ns ! i) \<and> nat (parent (ns ! i)) < length ns
                 \<and> cost (ns ! nat (parent (ns ! i))) \<le> cost (ns ! i)"
    and "x = -1 \<or> cost (ns ! nat x) < cost (ns ! j)"
  shows "anchored (ns[j := n']) x"
  using assms(1,3)
proof (induction rule: anchored.induct)
  case none
  show ?case by (rule anchored.none)
next
  case (node i)
  from node.prems node.hyps(1) have lt: "cost (ns ! nat i) < cost (ns ! j)" by auto
  then have ne: "nat i \<noteq> j" by auto
  show ?case
  proof (rule anchored.node)
    show "0 \<le> i" by fact
    show "nat i < length (ns[j := n'])" using node.hyps(2) by simp
    have "parent (ns ! nat i) = -1 \<or> cost (ns ! nat (parent (ns ! nat i))) < cost (ns ! j)"
      using mono[OF node.hyps(2)] lt by fastforce
    from node.IH[OF this] ne show "anchored (ns[j := n']) (parent (ns[j := n'] ! nat i))"
      by simp
  qed
qed

lemma anchored_update_all:
  assumes "anchored (ns[j := n']) (parent n')" and "anchored ns y"
  shows "anchored (ns[j := n']) y"
  using assms(2)
proof (induction rule: anchored.induct)
  case none
  show ?case by (rule anchored.none)
next
  case (node i)
  show ?case
  proof (rule anchored.node)
    show "0 \<le> i" by fact
    show "nat i < length (ns[j := n'])" using node.hyps(2) by simp
    show "anchored (ns[j := n']) (parent (ns[j := n'] ! nat i))"
      using node.IH node.hyps(2) assms(1) by (cases "nat i = j") simp_all
  qed
qed

lemma rinv_root:
  assumes "rinv grid rows cols start ns"
  shows "ns \<noteq> []" "pt (ns ! 0) = start" "parent (ns ! 0) = -1" "cost (ns ! 0) = 0"
  using assms unfolding rinv_def by blast+

lemma rinv_node:
  assumes "rinv grid rows cols start ns" and "i < length ns"
  shows "0 \<le> cost (ns ! i)" "anchored ns (int i)" "linked grid rows cols ns (ns ! i)"
    "0 < i \<Longrightarrow> parent (ns ! i) \<noteq> -1"
  using assms unfolding rinv_def by blast+

lemma rinvI:
  assumes "ns \<noteq> []" "pt (ns ! 0) = start" "parent (ns ! 0) = -1" "cost (ns ! 0) = 0"
    and "\<And>i. i < length ns \<Longrightarrow> 0 \<le> cost (ns ! i)"
    and "\<And>i. i < length ns \<Longrightarrow> anchored ns (int i)"
    and "\<And>i. i < length ns \<Longrightarrow> linked grid rows cols ns (ns ! i)"
    and "\<And>i. i < length ns \<Longrightarrow> 0 < i \<Longrightarrow> parent (ns ! i) \<noteq> -1"
  shows "rinv grid rows cols start ns"
  using assms unfolding rinv_def by blast

lemma linked_parent:
  assumes "linked grid rows cols ns n" and "parent n \<noteq> -1"
  shows "0 \<le> parent n" "nat (parent n) < length ns"
    "cost (ns ! nat (parent n)) + real (wt grid (pt n)) * euclid (pt (ns ! nat (parent n))) (pt n)
       \<le> cost n"
    "lineFree grid rows cols (pt (ns ! nat (parent n))) (pt n) = Some (Inr True)"
    "cost (ns ! nat (parent n)) \<le> cost n"
proof -
  from assms show a: "0 \<le> parent n" "nat (parent n) < length ns"
    "cost (ns ! nat (parent n)) + real (wt grid (pt n)) * euclid (pt (ns ! nat (parent n))) (pt n)
       \<le> cost n"
    "lineFree grid rows cols (pt (ns ! nat (parent n))) (pt n) = Some (Inr True)"
    unfolding linked_def by blast+
  have "0 \<le> real (wt grid (pt n)) * euclid (pt (ns ! nat (parent n))) (pt n)"
    by (simp add: euclid_nonneg)
  with a(3) show "cost (ns ! nat (parent n)) \<le> cost n" by linarith
qed

lemma rinv_mono:
  assumes "rinv grid rows cols start ns" and "i < length ns" and "parent (ns ! i) \<noteq> -1"
  shows "0 \<le> parent (ns ! i) \<and> nat (parent (ns ! i)) < length ns
         \<and> cost (ns ! nat (parent (ns ! i))) \<le> cost (ns ! i)"
  using linked_parent(1,2,5)[OF rinv_node(3)[OF assms(1,2)] assms(3)] by blast

lemma rinv_append:
  assumes inv: "rinv grid rows cols start ns" and ni: "ni < length ns"
    and lf: "lineFree grid rows cols (pt (ns ! ni)) q = Some (Inr True)"
    and c: "cst = cost (ns ! ni) + real (wt grid q) * euclid (pt (ns ! ni)) q"
  shows "rinv grid rows cols start (ns @ [\<lparr>pt = q, parent = int ni, cost = cst\<rparr>])"
proof (rule rinvI)
  let ?nd = "\<lparr>pt = q, parent = int ni, cost = cst\<rparr>"
  let ?ns = "ns @ [?nd]"
  note r = rinv_root[OF inv]
  from r(1) have l0: "0 < length ns" by simp
  show "?ns \<noteq> []" by simp
  from r l0 show "pt (?ns ! 0) = start" "parent (?ns ! 0) = -1" "cost (?ns ! 0) = 0"
    by (simp_all add: nth_append)
  have cn: "0 \<le> cst" using c rinv_node(1)[OF inv ni] euclid_nonneg[of "pt (ns ! ni)" q]
    by simp
  have lk: "linked grid rows cols ?ns ?nd"
    unfolding linked_def using ni lf c by (simp add: nth_append)
  have an: "anchored ?ns (int (length ns))"
  proof (rule anchored.node)
    show "0 \<le> int (length ns)" by simp
    show "nat (int (length ns)) < length ?ns" by simp
    show "anchored ?ns (parent (?ns ! nat (int (length ns))))"
      using anchored_append[OF rinv_node(2)[OF inv ni], of "[?nd]"] by simp
  qed
  fix i
  assume i: "i < length ?ns"
  show "0 \<le> cost (?ns ! i)"
    using i cn rinv_node(1)[OF inv, of i] by (cases "i < length ns") (simp_all add: nth_append)
  show "anchored ?ns (int i)"
  proof (cases "i < length ns")
    case True
    from anchored_append[OF rinv_node(2)[OF inv True]] show ?thesis .
  next
    case False
    with i have "i = length ns" by simp
    with an show ?thesis by simp
  qed
  show "linked grid rows cols ?ns (?ns ! i)"
  proof (cases "i < length ns")
    case True
    from linked_append[OF rinv_node(3)[OF inv True]] True show ?thesis by (simp add: nth_append)
  next
    case False
    with i have "i = length ns" by simp
    with lk show ?thesis by simp
  qed
  show "parent (?ns ! i) \<noteq> -1" if "0 < i"
    using i that rinv_node(4)[OF inv, of i] by (cases "i < length ns") (simp_all add: nth_append)
qed

lemma rinv_rewire_step:
  assumes inv: "rinv grid rows cols start ns" and j: "j < newIndex" and nl: "newIndex < length ns"
    and alt: "alt = cost (ns ! newIndex)
                + real (wt grid (pt (ns ! j))) * euclid (pt (ns ! newIndex)) (pt (ns ! j))"
    and lt: "alt < cost (ns ! j)"
    and lf: "lineFree grid rows cols (pt (ns ! newIndex)) (pt (ns ! j)) = Some (Inr True)"
  shows "rinv grid rows cols start (ns[j := (ns ! j)\<lparr>cost := alt, parent := int newIndex\<rparr>])"
proof (rule rinvI)
  let ?n' = "(ns ! j)\<lparr>cost := alt, parent := int newIndex\<rparr>"
  let ?ns = "ns[j := ?n']"
  note r = rinv_root[OF inv]
  from j nl have jl: "j < length ns" and ne: "newIndex \<noteq> j" by simp_all
  have ge: "cost (ns ! newIndex) \<le> alt"
    using alt euclid_nonneg[of "pt (ns ! newIndex)" "pt (ns ! j)"] by simp
  have a0: "0 \<le> alt" using ge rinv_node(1)[OF inv nl] by simp
  have j0: "j \<noteq> 0"
  proof
    assume "j = 0"
    with lt a0 r(4) show False by simp
  qed
  show "?ns \<noteq> []" using r(1) by simp
  from r j0 show "pt (?ns ! 0) = start" "parent (?ns ! 0) = -1" "cost (?ns ! 0) = 0"
    by simp_all
  have mono: "\<And>i. i < length ns \<Longrightarrow> parent (ns ! i) \<noteq> -1 \<Longrightarrow>
                 0 \<le> parent (ns ! i) \<and> nat (parent (ns ! i)) < length ns
                 \<and> cost (ns ! nat (parent (ns ! i))) \<le> cost (ns ! i)"
    by (rule rinv_mono[OF inv])
  have "int newIndex = -1 \<or> cost (ns ! nat (int newIndex)) < cost (ns ! j)"
    using ge lt by simp
  from anchored_update_below[OF rinv_node(2)[OF inv nl] mono this, of ?n']
  have an: "anchored ?ns (parent ?n')" by simp
  fix i
  assume "i < length ?ns"
  then have i: "i < length ns" by simp
  show "0 \<le> cost (?ns ! i)"
    using a0 rinv_node(1)[OF inv i] jl by (cases "i = j") simp_all
  show "anchored ?ns (int i)"
    by (rule anchored_update_all[OF an rinv_node(2)[OF inv i]])
  show "linked grid rows cols ?ns (?ns ! i)"
  proof (cases "i = j")
    case True
    have "linked grid rows cols ?ns ?n'"
      unfolding linked_def using nl ne alt lf by simp
    with True jl show ?thesis by simp
  next
    case False
    then have e: "?ns ! i = ns ! i" by simp
    show ?thesis
    proof (cases "parent (ns ! i) = -1")
      case True
      then show ?thesis unfolding e linked_def by simp
    next
      case pn: False
      note lp = linked_parent[OF rinv_node(3)[OF inv i] pn]
      show ?thesis
      proof (cases "nat (parent (ns ! i)) = j")
        case True
        with lp lt jl show ?thesis unfolding e linked_def by simp
      next
        case F2: False
        with lp show ?thesis unfolding e linked_def by simp
      qed
    qed
  qed
  show "parent (?ns ! i) \<noteq> -1" if "0 < i"
    using that rinv_node(4)[OF inv i] jl by (cases "i = j") simp_all
qed

lemma rrt_loop_Suc_cases:
  assumes "rrt_loop rnd grid rows cols goal rad stp bias (Suc n) st = Some (Inr st')"
  obtains (skip) k where
      "rrt_loop rnd grid rows cols goal rad stp bias n (st\<lparr>rk := k\<rparr>) = Some (Inr st')"
  | (extend) k smp ni newPt cl nd ns2 where
      "isFree grid rows cols smp = Inr True"
      "ni = nearest (nodes st) smp" "newPt = steer stp (pt (nodes st ! ni)) smp"
      "isFree grid rows cols newPt = Inr True"
      "lineFree grid rows cols (pt (nodes st ! ni)) newPt = Some (Inr True)"
      "cellAt grid newPt = Some cl"
      "nd = \<lparr>pt = newPt, parent = int ni,
             cost = cost (nodes st ! ni)
                    + real (cellWeight cl) * euclid (pt (nodes st ! ni)) newPt\<rparr>"
      "rewire grid rows cols rad nd (length (nodes st)) [0..<length (nodes st)]
         (nodes st @ [nd]) = Some (Inr ns2)"
      "rrt_loop rnd grid rows cols goal rad stp bias n
           (st\<lparr>rk := k, nodes := ns2, rvisited := rvisited st @ [newPt]\<rparr>) = Some (Inr st')
       \<or> (euclid newPt goal \<le> stp \<and> lineFree grid rows cols newPt goal = Some (Inr True)
          \<and> st' = st\<lparr>rk := k,
                      nodes := ns2 @ [\<lparr>pt = goal, parent = int (length (nodes st)),
                                       cost = cost nd\<rparr>],
                      rvisited := rvisited st @ [newPt], goalIndex := int (length ns2)\<rparr>)"
proof -
  define smp where "smp = (if rnd (rk st) < bias then goal
      else (\<lfloor>rnd (rk st + 1) * real_of_int rows\<rfloor>, \<lfloor>rnd (rk st + 2) * real_of_int cols\<rfloor>))"
  define k where "k = (if rnd (rk st) < bias then rk st + 1 else rk st + 3)"
  define s0 where "s0 = st\<lparr>rk := k\<rparr>"
  define ni where "ni = nearest (nodes st) smp"
  define newPt where "newPt = steer stp (pt (nodes st ! ni)) smp"
  have sk: "(if rnd (rk st) < bias then (goal, rk st + 1)
             else ((\<lfloor>rnd (rk st + 1) * real_of_int rows\<rfloor>,
                    \<lfloor>rnd (rk st + 2) * real_of_int cols\<rfloor>), rk st + 3)) = (smp, k)"
    by (simp add: smp_def k_def)
  have s0n: "nodes s0 = nodes st" "rvisited s0 = rvisited st" by (simp_all add: s0_def)
  note run = assms[unfolded rrt_loop.simps sk Let_def prod.case, folded s0_def,
      unfolded s0n, folded ni_def, folded newPt_def]
  show thesis
  proof (cases "isFree grid rows cols smp")
    case (Inl e)
    with run show ?thesis by simp
  next
    case f1: (Inr b1)
    show ?thesis
    proof (cases b1)
      case False
      with run f1 have "rrt_loop rnd grid rows cols goal rad stp bias n s0 = Some (Inr st')"
        by simp
      then show ?thesis unfolding s0_def by (rule skip)
    next
      case True
      with f1 have t1: "isFree grid rows cols smp = Inr True" by simp
      show ?thesis
      proof (cases "isFree grid rows cols newPt")
        case (Inl e)
        with run t1 show ?thesis by simp
      next
        case f2: (Inr b2)
        show ?thesis
        proof (cases b2)
          case False
          with run t1 f2 have "rrt_loop rnd grid rows cols goal rad stp bias n s0 = Some (Inr st')"
            by simp
          then show ?thesis unfolding s0_def by (rule skip)
        next
          case True
          with f2 have t2: "isFree grid rows cols newPt = Inr True" by simp
          from lineFree_bresenham[of grid rows cols "pt (nodes st ! ni)" newPt]
          obtain r3 where l3: "lineFree grid rows cols (pt (nodes st ! ni)) newPt = Some r3"
            by blast
          show ?thesis
          proof (cases r3)
            case (Inl e)
            with run t1 t2 l3 show ?thesis by simp
          next
            case f3: (Inr b3)
            show ?thesis
            proof (cases b3)
              case False
              with run t1 t2 l3 f3
              have "rrt_loop rnd grid rows cols goal rad stp bias n s0 = Some (Inr st')"
                by simp
              then show ?thesis unfolding s0_def by (rule skip)
            next
              case True
              with l3 f3 have t3: "lineFree grid rows cols (pt (nodes st ! ni)) newPt = Some (Inr True)"
                by simp
              show ?thesis
              proof (cases "cellAt grid newPt")
                case None
                with run t1 t2 t3 show ?thesis by simp
              next
                case (Some cl)
                define nd where "nd = \<lparr>pt = newPt, parent = int ni,
                    cost = cost (nodes st ! ni)
                      + real (cellWeight cl) * euclid (pt (nodes st ! ni)) newPt\<rparr>"
                have ndp: "pt nd = newPt" by (simp add: nd_def)
                note run2 = run[unfolded t1 t2 t3 Some, simplified, folded nd_def, unfolded ndp]
                show ?thesis
                proof (cases "rewire grid rows cols rad nd (length (nodes st))
                    [0..<length (nodes st)] (nodes st @ [nd])")
                  case None
                  with run2 show ?thesis by simp
                next
                  case sr: (Some r5)
                  show ?thesis
                  proof (cases r5)
                    case (Inl e)
                    with run2 sr show ?thesis by simp
                  next
                    case (Inr ns2)
                    note rw = sr[unfolded Inr]
                    note run3 = run2[unfolded rw, simplified]
                    have "rrt_loop rnd grid rows cols goal rad stp bias n
                         (st\<lparr>rk := k, nodes := ns2, rvisited := rvisited st @ [newPt]\<rparr>)
                           = Some (Inr st')
                       \<or> (euclid newPt goal \<le> stp
                          \<and> lineFree grid rows cols newPt goal = Some (Inr True)
                          \<and> st' = st\<lparr>rk := k,
                               nodes := ns2 @ [\<lparr>pt = goal, parent = int (length (nodes st)),
                                       cost = cost nd\<rparr>],
                               rvisited := rvisited st @ [newPt],
                               goalIndex := int (length ns2)\<rparr>)"
                    proof (cases "euclid newPt goal \<le> stp")
                      case False
                      with run3 show ?thesis by (simp add: s0_def)
                    next
                      case le: True
                      from lineFree_bresenham[of grid rows cols newPt goal]
                      obtain r6 where l6: "lineFree grid rows cols newPt goal = Some r6" by blast
                      show ?thesis
                      proof (cases r6)
                        case (Inl e)
                        with run3 le l6 show ?thesis by simp
                      next
                        case (Inr b6)
                        with run3 le l6 show ?thesis by (cases b6) (auto simp: s0_def)
                      qed
                    qed
                    from extend[OF t1 ni_def newPt_def t2 t3 Some nd_def rw this]
                    show ?thesis .
                  qed
                qed
              qed
            qed
          qed
        qed
      qed
    qed
  qed
qed

lemma bresenham_ne: "bresenham a b \<noteq> []"
  by (simp add: bresenham_def Let_def)

lemma lineFree_true_ends:
  assumes "lineFree grid rows cols a b = Some (Inr True)"
  shows "isFree grid rows cols a = Inr True" "isFree grid rows cols b = Inr True"
proof -
  from assms have af: "allFree grid rows cols (bresenham a b) = Inr True"
    by (simp add: lineFree_bresenham)
  have "a \<in> set (bresenham a b)"
    using bresenham_ne[of a b] bresenham_shape(1)[of a b] hd_in_set by metis
  with af show "isFree grid rows cols a = Inr True" by (simp add: allFree_True)
  have "b \<in> set (bresenham a b)"
    using bresenham_ne[of a b] bresenham_shape(2)[of a b] last_in_set by metis
  with af show "isFree grid rows cols b = Inr True" by (simp add: allFree_True)
qed

lemma isFree_true_cell:
  assumes "isFree grid rows cols p = Inr True"
  shows "\<exists>cl. cellAt grid p = Some cl \<and> \<not> wall cl"
  using assms by (auto simp: isFree_def split: if_splits option.splits)

lemma wt_cellAt: "cellAt grid p = Some cl \<Longrightarrow> wt grid p = cellWeight cl"
  by (simp add: wt_def)

lemma rewire_inv:
  assumes "rewire grid rows cols rad nd newIndex js ns = Some (Inr ns')"
    and "rinv grid rows cols start ns"
    and "\<forall>j \<in> set js. j < newIndex"
    and "newIndex < length ns" and "ns ! newIndex = nd"
  shows "rinv grid rows cols start ns' \<and> length ns' = length ns \<and> ns' ! newIndex = nd"
  using assms
proof (induction js arbitrary: ns)
  case Nil
  then show ?case by simp
next
  case (Cons j js)
  from Cons.prems(3) have jn: "j < newIndex" and js: "\<forall>j \<in> set js. j < newIndex" by simp_all
  note keep = Cons.IH[OF _ Cons.prems(2) js Cons.prems(4) Cons.prems(5)]
  note run = Cons.prems(1)[unfolded rewire.simps Let_def]
  show ?case
  proof (cases "euclid (pt (ns ! j)) (pt nd) \<le> rad")
    case False
    with run show ?thesis by (simp add: keep)
  next
    case near: True
    from lineFree_bresenham[of grid rows cols "pt nd" "pt (ns ! j)"]
    obtain r where l: "lineFree grid rows cols (pt nd) (pt (ns ! j)) = Some r" by blast
    show ?thesis
    proof (cases r)
      case (Inl e)
      with run near l show ?thesis by simp
    next
      case (Inr b)
      show ?thesis
      proof (cases b)
        case False
        with run near l Inr show ?thesis by (simp add: keep)
      next
        case True
        with l Inr have lt: "lineFree grid rows cols (pt nd) (pt (ns ! j)) = Some (Inr True)"
          by simp
        from isFree_true_cell[OF lineFree_true_ends(2)[OF lt]]
        obtain cl where cl: "cellAt grid (pt (ns ! j)) = Some cl" by blast
        define alt where "alt = cost nd + real (cellWeight cl) * euclid (pt nd) (pt (ns ! j))"
        show ?thesis
        proof (cases "alt < cost (ns ! j)")
          case False
          with run near lt cl show ?thesis by (simp add: keep alt_def)
        next
          case less: True
          let ?ns = "ns[j := (ns ! j)\<lparr>cost := alt, parent := int newIndex\<rparr>]"
          from run near lt cl less
          have r2: "rewire grid rows cols rad nd newIndex js ?ns = Some (Inr ns')"
            by (simp add: alt_def)
          have a2: "alt = cost (ns ! newIndex)
              + real (wt grid (pt (ns ! j))) * euclid (pt (ns ! newIndex)) (pt (ns ! j))"
            by (simp add: alt_def Cons.prems(5) wt_cellAt[OF cl])
          have lf2: "lineFree grid rows cols (pt (ns ! newIndex)) (pt (ns ! j)) = Some (Inr True)"
            using lt by (simp add: Cons.prems(5))
          have inv2: "rinv grid rows cols start ?ns"
            by (rule rinv_rewire_step[OF Cons.prems(2) jn Cons.prems(4) a2 less lf2])
          have l2: "newIndex < length ?ns" using Cons.prems(4) by simp
          have n2: "?ns ! newIndex = nd" using jn Cons.prems(5) by simp
          from Cons.IH[OF r2 inv2 js l2 n2] show ?thesis by simp
        qed
      qed
    qed
  qed
qed

lemma rrt_loop_inv:
  assumes "rrt_loop rnd grid rows cols goal rad stp bias n st = Some (Inr st')"
    and "rinv grid rows cols start (nodes st)" and "goalIndex st = -1"
  shows "(goalIndex st' = -1 \<and> rinv grid rows cols start (nodes st'))
       \<or> (\<exists>ns. rinv grid rows cols start ns \<and> 1 < length ns
             \<and> nodes st' = ns @ [\<lparr>pt = goal, parent = int (length ns) - 1,
                                    cost = cost (last ns)\<rparr>]
             \<and> goalIndex st' = int (length ns)
             \<and> lineFree grid rows cols (pt (last ns)) goal = Some (Inr True))"
  using assms
proof (induction n arbitrary: st)
  case 0
  then show ?case by simp
next
  case (Suc n)
  from Suc.prems(1) show ?case
  proof (cases rule: rrt_loop_Suc_cases)
    case (skip k)
    show ?thesis
      by (rule Suc.IH[OF skip]) (simp_all add: Suc.prems)
  next
    case (extend k smp ni newPt cl nd ns2)
    note inv = Suc.prems(2)
    from rinv_root(1)[OF inv] have "ni < length (nodes st)"
      unfolding extend(2) by (rule nearest_lt)
    then have inv1: "rinv grid rows cols start (nodes st @ [nd])"
      unfolding extend(7)
      by (rule rinv_append[OF inv _ extend(5)]) (simp add: wt_cellAt[OF extend(6)])
    have "rinv grid rows cols start ns2 \<and> length ns2 = length (nodes st @ [nd])
        \<and> ns2 ! length (nodes st) = nd"
      by (rule rewire_inv[OF extend(8) inv1]) simp_all
    then have inv2: "rinv grid rows cols start ns2"
      and len2: "length ns2 = Suc (length (nodes st))"
      and nd2: "ns2 ! length (nodes st) = nd" by simp_all
    from len2 nd2 have last2: "last ns2 = nd"
      by (metis diff_Suc_1 last_conv_nth length_0_conv nat.distinct(1))
    from extend(9) show ?thesis
    proof
      assume "rrt_loop rnd grid rows cols goal rad stp bias n
           (st\<lparr>rk := k, nodes := ns2, rvisited := rvisited st @ [newPt]\<rparr>) = Some (Inr st')"
      then show ?thesis
        by (rule Suc.IH) (simp_all add: inv2 Suc.prems)
    next
      assume fin: "euclid newPt goal \<le> stp \<and> lineFree grid rows cols newPt goal = Some (Inr True)
          \<and> st' = st\<lparr>rk := k,
                      nodes := ns2 @ [\<lparr>pt = goal, parent = int (length (nodes st)),
                                       cost = cost nd\<rparr>],
                      rvisited := rvisited st @ [newPt], goalIndex := int (length ns2)\<rparr>"
      have l1: "1 < length ns2" using len2 rinv_root(1)[OF inv] by simp
      have pn: "pt nd = newPt" by (simp add: extend(7))
      have "rinv grid rows cols start ns2 \<and> 1 < length ns2
             \<and> nodes st' = ns2 @ [\<lparr>pt = goal, parent = int (length ns2) - 1,
                                    cost = cost (last ns2)\<rparr>]
             \<and> goalIndex st' = int (length ns2)
             \<and> lineFree grid rows cols (pt (last ns2)) goal = Some (Inr True)"
        using fin inv2 l1 by (simp add: last2 len2 pn)
      then show ?thesis by blast
    qed
  qed
qed

lemma rinv_init: "rinv grid rows cols start (nodes (rrt_init start))"
proof (rule rinvI)
  show "\<And>i. i < length (nodes (rrt_init start)) \<Longrightarrow> anchored (nodes (rrt_init start)) (int i)"
  proof -
    fix i assume "i < length (nodes (rrt_init start))"
    then have i0: "i = 0" by (simp add: rrt_init_def)
    have "anchored (nodes (rrt_init start)) (int 0)"
    proof (rule anchored.node)
      show "anchored (nodes (rrt_init start)) (parent (nodes (rrt_init start) ! nat (int 0)))"
        by (simp add: rrt_init_def anchored.none)
    qed (simp_all add: rrt_init_def)
    with i0 show "anchored (nodes (rrt_init start)) (int i)" by simp
  qed
qed (simp_all add: rrt_init_def linked_def)

lemma rrt_loop_tree:
  assumes run: "rrt_loop rnd grid rows cols goal rad stp bias n (rrt_init start) = Some (Inr st)"
  shows "nodes st \<noteq> []"
    and "pt (nodes st ! 0) = start \<and> parent (nodes st ! 0) = -1 \<and> cost (nodes st ! 0) = 0"
    and "goalIndex st = -1 \<or> (1 < goalIndex st \<and> nat (goalIndex st) < length (nodes st)
           \<and> pt (nodes st ! nat (goalIndex st)) = goal
           \<and> parent (nodes st ! nat (goalIndex st)) = goalIndex st - 1
           \<and> cost (nodes st ! nat (goalIndex st)) = cost (nodes st ! nat (goalIndex st - 1)))"
    and "\<And>i. i < length (nodes st) \<Longrightarrow> anchored (nodes st) (int i)"
    and "\<And>i. i < length (nodes st) \<Longrightarrow> 0 < i \<Longrightarrow> parent (nodes st ! i) \<noteq> -1"
    and "\<And>i. i < length (nodes st) \<Longrightarrow> parent (nodes st ! i) \<noteq> -1 \<Longrightarrow>
           0 \<le> parent (nodes st ! i) \<and> nat (parent (nodes st ! i)) < length (nodes st)
           \<and> cost (nodes st ! nat (parent (nodes st ! i))) \<le> cost (nodes st ! i)
           \<and> lineFree grid rows cols (pt (nodes st ! nat (parent (nodes st ! i))))
                 (pt (nodes st ! i)) = Some (Inr True)"
    and "\<And>i. i < length (nodes st) \<Longrightarrow> int i \<noteq> goalIndex st \<Longrightarrow>
           linked grid rows cols (nodes st) (nodes st ! i)"
proof -
  have g0: "goalIndex (rrt_init start) = -1" by (simp add: rrt_init_def)
  from rrt_loop_inv[OF run rinv_init g0]
  consider (plain) "goalIndex st = -1" "rinv grid rows cols start (nodes st)"
    | (goal) ns where "rinv grid rows cols start ns" "1 < length ns"
        "nodes st = ns @ [\<lparr>pt = goal, parent = int (length ns) - 1, cost = cost (last ns)\<rparr>]"
        "goalIndex st = int (length ns)"
        "lineFree grid rows cols (pt (last ns)) goal = Some (Inr True)"
    by blast
  then have all: "nodes st \<noteq> []
    \<and> (pt (nodes st ! 0) = start \<and> parent (nodes st ! 0) = -1 \<and> cost (nodes st ! 0) = 0)
    \<and> (goalIndex st = -1 \<or> (1 < goalIndex st \<and> nat (goalIndex st) < length (nodes st)
           \<and> pt (nodes st ! nat (goalIndex st)) = goal
           \<and> parent (nodes st ! nat (goalIndex st)) = goalIndex st - 1
           \<and> cost (nodes st ! nat (goalIndex st)) = cost (nodes st ! nat (goalIndex st - 1))))
    \<and> (\<forall>i < length (nodes st). anchored (nodes st) (int i)
          \<and> (0 < i \<longrightarrow> parent (nodes st ! i) \<noteq> -1)
          \<and> (parent (nodes st ! i) \<noteq> -1 \<longrightarrow>
           0 \<le> parent (nodes st ! i) \<and> nat (parent (nodes st ! i)) < length (nodes st)
           \<and> cost (nodes st ! nat (parent (nodes st ! i))) \<le> cost (nodes st ! i)
           \<and> lineFree grid rows cols (pt (nodes st ! nat (parent (nodes st ! i))))
                 (pt (nodes st ! i)) = Some (Inr True))
          \<and> (int i \<noteq> goalIndex st \<longrightarrow> linked grid rows cols (nodes st) (nodes st ! i)))"
  proof cases
    case plain
    note inv = plain(2)
    have "\<And>i. i < length (nodes st) \<Longrightarrow> parent (nodes st ! i) \<noteq> -1 \<Longrightarrow>
           0 \<le> parent (nodes st ! i) \<and> nat (parent (nodes st ! i)) < length (nodes st)
           \<and> cost (nodes st ! nat (parent (nodes st ! i))) \<le> cost (nodes st ! i)
           \<and> lineFree grid rows cols (pt (nodes st ! nat (parent (nodes st ! i))))
                 (pt (nodes st ! i)) = Some (Inr True)"
      using linked_parent[OF rinv_node(3)[OF inv]] by blast
    then show ?thesis
      using rinv_root[OF inv] rinv_node[OF inv] plain(1) by blast
  next
    case (goal ns)
    note inv = goal(1)
    let ?g = "\<lparr>pt = goal, parent = int (length ns) - 1, cost = cost (last ns)\<rparr>"
    let ?ns = "ns @ [?g]"
    from goal(2) have ne: "ns \<noteq> []" by auto
    have last: "last ns = ns ! (length ns - 1)" using ne by (rule last_conv_nth)
    have old: "\<And>i. i < length ns \<Longrightarrow> ?ns ! i = ns ! i" by (simp add: nth_append)
    have new: "?ns ! length ns = ?g" by simp
    have pn: "nat (int (length ns) - 1) = length ns - 1" by simp
    have lp: "length ns - 1 < length ns" using ne by simp
    have par: "\<And>i. i < length ns \<Longrightarrow> parent (ns ! i) \<noteq> -1 \<Longrightarrow>
           0 \<le> parent (ns ! i) \<and> nat (parent (ns ! i)) < length ns
           \<and> cost (ns ! nat (parent (ns ! i))) \<le> cost (ns ! i)
           \<and> lineFree grid rows cols (pt (ns ! nat (parent (ns ! i))))
                 (pt (ns ! i)) = Some (Inr True)"
      using linked_parent[OF rinv_node(3)[OF inv]] by blast
    have anc_new: "anchored ?ns (int (length ns))"
    proof (rule anchored.node)
      have "anchored ns (int (length ns - 1))" by (rule rinv_node(2)[OF inv lp])
      then have "anchored ?ns (int (length ns - 1))" by (rule anchored_append)
      moreover have "int (length ns - 1) = int (length ns) - 1" using ne
        by (simp add: of_nat_diff Suc_leI)
      ultimately show "anchored ?ns (parent (?ns ! nat (int (length ns))))" by simp
    qed simp_all
    have each: "anchored ?ns (int i)
          \<and> (0 < i \<longrightarrow> parent (?ns ! i) \<noteq> -1)
          \<and> (parent (?ns ! i) \<noteq> -1 \<longrightarrow>
           0 \<le> parent (?ns ! i) \<and> nat (parent (?ns ! i)) < length ?ns
           \<and> cost (?ns ! nat (parent (?ns ! i))) \<le> cost (?ns ! i)
           \<and> lineFree grid rows cols (pt (?ns ! nat (parent (?ns ! i))))
                 (pt (?ns ! i)) = Some (Inr True))
          \<and> (int i \<noteq> int (length ns) \<longrightarrow> linked grid rows cols ?ns (?ns ! i))"
      if il: "i < length ?ns" for i
    proof (cases "i < length ns")
      case True
      have a: "anchored ?ns (int i)" by (rule anchored_append[OF rinv_node(2)[OF inv True]])
      have b: "0 < i \<longrightarrow> parent (?ns ! i) \<noteq> -1"
        using rinv_node(4)[OF inv True] by (simp add: old[OF True])
      have c: "parent (?ns ! i) \<noteq> -1 \<longrightarrow>
           0 \<le> parent (?ns ! i) \<and> nat (parent (?ns ! i)) < length ?ns
           \<and> cost (?ns ! nat (parent (?ns ! i))) \<le> cost (?ns ! i)
           \<and> lineFree grid rows cols (pt (?ns ! nat (parent (?ns ! i))))
                 (pt (?ns ! i)) = Some (Inr True)"
      proof
        assume "parent (?ns ! i) \<noteq> -1"
        then have p: "parent (ns ! i) \<noteq> -1" by (simp add: old[OF True])
        note q = par[OF True p]
        from q have pl: "nat (parent (ns ! i)) < length ns" by simp
        from q show "0 \<le> parent (?ns ! i) \<and> nat (parent (?ns ! i)) < length ?ns
           \<and> cost (?ns ! nat (parent (?ns ! i))) \<le> cost (?ns ! i)
           \<and> lineFree grid rows cols (pt (?ns ! nat (parent (?ns ! i))))
                 (pt (?ns ! i)) = Some (Inr True)"
          unfolding old[OF True] using old[OF pl] by simp
      qed
      have d: "linked grid rows cols ?ns (?ns ! i)"
        unfolding old[OF True] by (rule linked_append[OF rinv_node(3)[OF inv True]])
      from a b c d show ?thesis by blast
    next
      case False
      with il have i: "i = length ns" by simp
      have c: "cost (?ns ! nat (parent (?ns ! length ns))) \<le> cost (?ns ! length ns)"
        unfolding new using old[OF lp] last by (simp add: pn)
      have l: "lineFree grid rows cols (pt (?ns ! nat (parent (?ns ! length ns))))
                 (pt (?ns ! length ns)) = Some (Inr True)"
        unfolding new using old[OF lp] last goal(5) by (simp add: pn)
      have r: "0 \<le> parent (?ns ! length ns) \<and> nat (parent (?ns ! length ns)) < length ?ns
          \<and> parent (?ns ! length ns) \<noteq> -1"
        using goal(2) ne by (simp add: pn)
      from anc_new c l r show ?thesis unfolding i by blast
    qed
    have root: "pt (?ns ! 0) = start \<and> parent (?ns ! 0) = -1 \<and> cost (?ns ! 0) = 0"
      using rinv_root[OF inv] old[of 0] ne by simp
    have gl: "1 < int (length ns) \<and> nat (int (length ns)) < length ?ns
           \<and> pt (?ns ! nat (int (length ns))) = goal
           \<and> parent (?ns ! nat (int (length ns))) = int (length ns) - 1
           \<and> cost (?ns ! nat (int (length ns))) = cost (?ns ! nat (int (length ns) - 1))"
      using goal(2) old[OF lp] last by (simp add: pn)
    from root gl each show ?thesis unfolding goal(3) goal(4) by blast
  qed
  from all show "nodes st \<noteq> []" by blast
  from all show "pt (nodes st ! 0) = start \<and> parent (nodes st ! 0) = -1 \<and> cost (nodes st ! 0) = 0"
    by blast
  from all show "goalIndex st = -1 \<or> (1 < goalIndex st \<and> nat (goalIndex st) < length (nodes st)
           \<and> pt (nodes st ! nat (goalIndex st)) = goal
           \<and> parent (nodes st ! nat (goalIndex st)) = goalIndex st - 1
           \<and> cost (nodes st ! nat (goalIndex st)) = cost (nodes st ! nat (goalIndex st - 1)))"
    by blast
  from all show "\<And>i. i < length (nodes st) \<Longrightarrow> anchored (nodes st) (int i)" by blast
  from all show "\<And>i. i < length (nodes st) \<Longrightarrow> 0 < i \<Longrightarrow> parent (nodes st ! i) \<noteq> -1" by blast
  from all show "\<And>i. i < length (nodes st) \<Longrightarrow> parent (nodes st ! i) \<noteq> -1 \<Longrightarrow>
           0 \<le> parent (nodes st ! i) \<and> nat (parent (nodes st ! i)) < length (nodes st)
           \<and> cost (nodes st ! nat (parent (nodes st ! i))) \<le> cost (nodes st ! i)
           \<and> lineFree grid rows cols (pt (nodes st ! nat (parent (nodes st ! i))))
                 (pt (nodes st ! i)) = Some (Inr True)" by blast
  from all show "\<And>i. i < length (nodes st) \<Longrightarrow> int i \<noteq> goalIndex st \<Longrightarrow>
           linked grid rows cols (nodes st) (nodes st ! i)" by blast
qed

lemma rrt_path_loop_anchored:
  assumes "anchored ns cur"
  shows "\<exists>p. rrt_path_loop ns cur pth = Some (Inr (pth @ p))
          \<and> (cur = -1 \<longrightarrow> p = [])
          \<and> (cur \<noteq> -1 \<longrightarrow> p \<noteq> [] \<and> hd p = pt (ns ! nat cur)
                \<and> (\<exists>i < length ns. parent (ns ! i) = -1 \<and> last p = pt (ns ! i)))
          \<and> successively (\<lambda>c par. \<exists>i < length ns. parent (ns ! i) \<noteq> -1 \<and> c = pt (ns ! i)
                \<and> par = pt (ns ! nat (parent (ns ! i)))) p"
  using assms
proof (induction arbitrary: pth)
  case none
  have "rrt_path_loop ns (-1) pth = Some (Inr (pth @ []))"
    by (simp add: rrt_path_loop.simps)
  then show ?case by (intro exI[of _ "[]"]) simp
next
  case (node i)
  let ?n = "ns ! nat i"
  let ?R = "\<lambda>c par. \<exists>i < length ns. parent (ns ! i) \<noteq> -1 \<and> c = pt (ns ! i)
                \<and> par = pt (ns ! nat (parent (ns ! i)))"
  from node.IH[of "pth @ [pt ?n]"] obtain p where
    run: "rrt_path_loop ns (parent ?n) (pth @ [pt ?n]) = Some (Inr ((pth @ [pt ?n]) @ p))"
    and e: "parent ?n = -1 \<longrightarrow> p = []"
    and h: "parent ?n \<noteq> -1 \<longrightarrow> p \<noteq> [] \<and> hd p = pt (ns ! nat (parent ?n))
                \<and> (\<exists>i < length ns. parent (ns ! i) = -1 \<and> last p = pt (ns ! i))"
    and s: "successively ?R p"
    by blast
  from node.hyps(1) have ne: "i \<noteq> -1" by simp
  have "rrt_path_loop ns i pth = rrt_path_loop ns (parent ?n) (pth @ [pt ?n])"
    using node.hyps(1,2) ne by (subst rrt_path_loop.simps) simp
  with run have r: "rrt_path_loop ns i pth = Some (Inr (pth @ (pt ?n # p)))" by simp
  have l: "\<exists>k < length ns. parent (ns ! k) = -1 \<and> last (pt ?n # p) = pt (ns ! k)"
  proof (cases "parent ?n = -1")
    case True
    with e node.hyps(2) show ?thesis by auto
  next
    case False
    with h show ?thesis by auto
  qed
  have s2: "successively ?R (pt ?n # p)"
  proof (cases p)
    case Nil
    then show ?thesis by simp
  next
    case (Cons q qs)
    with e have pn: "parent ?n \<noteq> -1" by auto
    with h Cons have "q = pt (ns ! nat (parent ?n))" by simp
    with pn node.hyps(2) have "?R (pt ?n) q" by blast
    with s Cons show ?thesis by simp
  qed
  from r l s2 ne show ?case by (intro exI[of _ "pt ?n # p"]) simp
qed

lemma rewire_not_None: "rewire grid rows cols rad nd newIndex js ns \<noteq> None"
proof (induction js arbitrary: ns)
  case Nil
  show ?case by simp
next
  case (Cons j js)
  show ?case
    unfolding rewire.simps Let_def lineFree_bresenham
    using Cons.IH by (simp split: sum.splits bool.splits option.splits)
qed

lemma allFree_no_error:
  assumes "\<And>p e. isFree grid rows cols p \<noteq> Inl e"
  shows "allFree grid rows cols ps \<noteq> Inl e"
  using assms by (induction ps) (auto split: sum.splits)

lemma lineFree_no_error:
  assumes "\<And>p e. isFree grid rows cols p \<noteq> Inl e"
  shows "\<exists>r. lineFree grid rows cols a b = Some (Inr r)"
proof -
  from allFree_no_error[OF assms] obtain r where "allFree grid rows cols (bresenham a b) = Inr r"
    by (cases "allFree grid rows cols (bresenham a b)") auto
  then show ?thesis by (simp add: lineFree_bresenham)
qed

lemma lineFree_true_cellAt:
  "lineFree grid rows cols a b = Some (Inr True) \<Longrightarrow> cellAt grid b \<noteq> None"
  using isFree_true_cell[OF lineFree_true_ends(2)] by fastforce

lemma rewire_no_error:
  assumes ne: "\<And>p e. isFree grid rows cols p \<noteq> Inl e"
  shows "\<exists>ns'. rewire grid rows cols rad nd newIndex js ns = Some (Inr ns')"
proof (induction js arbitrary: ns)
  case Nil
  show ?case by simp
next
  case (Cons j js)
  from lineFree_no_error[OF ne] obtain b
    where l: "lineFree grid rows cols (pt nd) (pt (ns ! j)) = Some (Inr b)" by blast
  show ?case
  proof (cases b)
    case False
    with l show ?thesis by (simp add: Cons.IH Let_def)
  next
    case True
    with l have lt: "lineFree grid rows cols (pt nd) (pt (ns ! j)) = Some (Inr True)" by simp
    from lineFree_true_cellAt[OF lt] obtain cl where "cellAt grid (pt (ns ! j)) = Some cl"
      by blast
    with lt show ?thesis by (simp add: Cons.IH Let_def)
  qed
qed

lemma isFree_cellAt: "isFree grid rows cols p = Inr True \<Longrightarrow> cellAt grid p \<noteq> None"
  using isFree_true_cell by fastforce

lemma rrt_loop_returns:
  "(\<exists>y. rrt_loop rnd grid rows cols goal rad stp bias n st = Some y)
   \<and> ((\<forall>p e. isFree grid rows cols p \<noteq> Inl e) \<longrightarrow>
        (\<exists>s. rrt_loop rnd grid rows cols goal rad stp bias n st = Some (Inr s)))"
proof (induction n arbitrary: st)
  case 0
  show ?case by simp
next
  case (Suc n)
  define smp where "smp = (if rnd (rk st) < bias then goal
      else (\<lfloor>rnd (rk st + 1) * real_of_int rows\<rfloor>, \<lfloor>rnd (rk st + 2) * real_of_int cols\<rfloor>))"
  define k where "k = (if rnd (rk st) < bias then rk st + 1 else rk st + 3)"
  define s0 where "s0 = st\<lparr>rk := k\<rparr>"
  define ni where "ni = nearest (nodes st) smp"
  define newPt where "newPt = steer stp (pt (nodes st ! ni)) smp"
  have sk: "(if rnd (rk st) < bias then (goal, rk st + 1)
             else ((\<lfloor>rnd (rk st + 1) * real_of_int rows\<rfloor>,
                    \<lfloor>rnd (rk st + 2) * real_of_int cols\<rfloor>), rk st + 3)) = (smp, k)"
    by (simp add: smp_def k_def)
  have s0n: "nodes s0 = nodes st" "rvisited s0 = rvisited st" by (simp_all add: s0_def)
  obtain b1 where l1: "lineFree grid rows cols (pt (nodes st ! ni)) newPt = Some b1"
    using lineFree_bresenham by blast
  have e: "rrt_loop rnd grid rows cols goal rad stp bias (Suc n) st =
     (case isFree grid rows cols smp of
          Inl e \<Rightarrow> Some (Inl e)
        | Inr False \<Rightarrow> rrt_loop rnd grid rows cols goal rad stp bias n s0
        | Inr True \<Rightarrow>
           (case isFree grid rows cols newPt of
              Inl e \<Rightarrow> Some (Inl e)
            | Inr False \<Rightarrow> rrt_loop rnd grid rows cols goal rad stp bias n s0
            | Inr True \<Rightarrow>
               (case b1 of
                  Inl e \<Rightarrow> Some (Inl e)
                | Inr False \<Rightarrow> rrt_loop rnd grid rows cols goal rad stp bias n s0
                | Inr True \<Rightarrow>
                   (case cellAt grid newPt of
                      None \<Rightarrow> Some (Inl TypeError)
                    | Some cl \<Rightarrow>
                       (case rewire grid rows cols rad
                            \<lparr>pt = newPt, parent = int ni,
                              cost = cost (nodes st ! ni)
                                + real (cellWeight cl) * euclid (pt (nodes st ! ni)) newPt\<rparr>
                            (length (nodes st)) [0..<length (nodes st)]
                            (nodes st @ [\<lparr>pt = newPt, parent = int ni,
                              cost = cost (nodes st ! ni)
                                + real (cellWeight cl) * euclid (pt (nodes st ! ni)) newPt\<rparr>]) of
                          None \<Rightarrow> None
                        | Some (Inl e) \<Rightarrow> Some (Inl e)
                        | Some (Inr ns2) \<Rightarrow>
                            if euclid newPt goal \<le> stp then
                              (case lineFree grid rows cols newPt goal of
                                 None \<Rightarrow> None
                               | Some (Inl e) \<Rightarrow> Some (Inl e)
                               | Some (Inr True) \<Rightarrow> Some (Inr (s0\<lparr>nodes := ns2 @ [\<lparr>pt = goal,
                                     parent = int (length (nodes st)),
                                     cost = cost (nodes st ! ni)
                                + real (cellWeight cl) * euclid (pt (nodes st ! ni)) newPt\<rparr>],
                                     rvisited := rvisited st @ [newPt],
                                     goalIndex := int (length ns2)\<rparr>))
                               | Some (Inr False) \<Rightarrow>
                                   rrt_loop rnd grid rows cols goal rad stp bias n
                                     (s0\<lparr>nodes := ns2, rvisited := rvisited st @ [newPt]\<rparr>))
                            else rrt_loop rnd grid rows cols goal rad stp bias n
                                     (s0\<lparr>nodes := ns2, rvisited := rvisited st @ [newPt]\<rparr>))))))"
    unfolding rrt_loop.simps sk Let_def prod.case
    unfolding s0_def[symmetric] s0n ni_def[symmetric] newPt_def[symmetric] l1
    by (simp cong: sum.case_cong option.case_cong bool.case_cong if_cong)
  have ih: "\<And>s. \<exists>y. rrt_loop rnd grid rows cols goal rad stp bias n s = Some y"
    using Suc.IH by simp
  have A: "\<exists>y. rrt_loop rnd grid rows cols goal rad stp bias (Suc n) st = Some y"
    unfolding e
    by (simp add: ih rewire_not_None lineFree_bresenham
        split: sum.split bool.split option.split)
  have B: "\<exists>s. rrt_loop rnd grid rows cols goal rad stp bias (Suc n) st = Some (Inr s)"
    if ne: "\<forall>p e. isFree grid rows cols p \<noteq> Inl e"
  proof -
    from ne have ne': "\<And>p e. isFree grid rows cols p \<noteq> Inl e" by blast
    from Suc.IH ne
    have ih2: "\<And>s. \<exists>y. rrt_loop rnd grid rows cols goal rad stp bias n s = Some (Inr y)"
      by blast
    from lineFree_no_error[OF ne', of "pt (nodes st ! ni)" newPt] l1
    obtain c1 where b1: "b1 = Inr c1" by auto
    from lineFree_no_error[OF ne'] obtain c2
      where l2: "lineFree grid rows cols newPt goal = Some (Inr c2)" by blast
    have rw: "\<And>nd m js ns. \<exists>y. rewire grid rows cols rad nd m js ns = Some (Inr y)"
      using rewire_no_error[OF ne'] by blast
    obtain f1 where f1: "isFree grid rows cols smp = Inr f1"
      using ne' by (cases "isFree grid rows cols smp") auto
    obtain f2 where f2: "isFree grid rows cols newPt = Inr f2"
      using ne' by (cases "isFree grid rows cols newPt") auto
    show ?thesis
    proof (cases "f1 \<and> f2 \<and> c1")
      case False
      then show ?thesis unfolding e f1 f2 b1 using ih2 by (auto split: bool.split)
    next
      case True
      with f2 have "isFree grid rows cols newPt = Inr True" by simp
      from isFree_cellAt[OF this] obtain cl where cl: "cellAt grid newPt = Some cl" by blast
      obtain ns2 where r2: "rewire grid rows cols rad
                            \<lparr>pt = newPt, parent = int ni,
                              cost = cost (nodes st ! ni)
                                + real (cellWeight cl) * euclid (pt (nodes st ! ni)) newPt\<rparr>
                            (length (nodes st)) [0..<length (nodes st)]
                            (nodes st @ [\<lparr>pt = newPt, parent = int ni,
                              cost = cost (nodes st ! ni)
                                + real (cellWeight cl) * euclid (pt (nodes st ! ni)) newPt\<rparr>])
                 = Some (Inr ns2)" using rw by blast
      from True show ?thesis unfolding e f1 f2 b1 cl
        using ih2 by (simp add: r2 l2 split: bool.split)
    qed
  qed
  from A B show ?case by blast
qed

lemma isFree_rect:
  assumes "rect grid" and "dims grid = Inr (rows, cols)"
  shows "isFree grid rows cols p \<noteq> Inl e"
  using rect_cellAt[OF assms, of p] by (auto simp: isFree_def split: option.splits)

lemma runRRTStar_unfold:
  "runRRTStar rnd grid start goal os =
     (case dims grid of
        Inl e \<Rightarrow> Some (Inl e)
      | Inr (rows, cols) \<Rightarrow>
          (case rrt_loop rnd grid rows cols goal (opt_radius os) (opt_step os) (opt_goalBias os)
                  (opt_iterations os) (rrt_init start) of
                None \<Rightarrow> None
              | Some (Inl e) \<Rightarrow> Some (Inl e)
              | Some (Inr st) \<Rightarrow>
                  if goalIndex st \<noteq> -1 then
                    (case rrt_path_loop (nodes st) (goalIndex st) [] of
                       None \<Rightarrow> None
                     | Some (Inl e) \<Rightarrow> Some (Inl e)
                     | Some (Inr p) \<Rightarrow> Some (Inr \<lparr>visited = rvisited st, path = rev p\<rparr>))
                  else Some (Inr \<lparr>visited = rvisited st, path = []\<rparr>)))"
  unfolding runRRTStar_def Let_def opt_radius_def opt_step_def opt_goalBias_def
    opt_iterations_def rrt_init_def ..

lemma runRRTStar_cases:
  assumes "runRRTStar rnd grid start goal os = Some (Inr res)"
  obtains rows cols st p where "dims grid = Inr (rows, cols)"
    and "rrt_loop rnd grid rows cols goal (opt_radius os) (opt_step os) (opt_goalBias os)
           (opt_iterations os) (rrt_init start) = Some (Inr st)"
    and "rrt_path_loop (nodes st) (goalIndex st) [] = Some (Inr p)"
    and "res = \<lparr>visited = rvisited st, path = rev p\<rparr>"
proof -
  note run = assms[unfolded runRRTStar_unfold]
  from run obtain rows cols where d: "dims grid = Inr (rows, cols)"
    by (cases "dims grid") auto
  from run d obtain st where l: "rrt_loop rnd grid rows cols goal (opt_radius os) (opt_step os)
      (opt_goalBias os) (opt_iterations os) (rrt_init start) = Some (Inr st)"
    by (auto split: option.splits sum.splits)
  show thesis
  proof (cases "goalIndex st = -1")
    case True
    with run d l have r: "res = \<lparr>visited = rvisited st, path = rev []\<rparr>" by simp
    have "rrt_path_loop (nodes st) (goalIndex st) [] = Some (Inr [])"
      using True by (simp add: rrt_path_loop.simps)
    from that[OF d l this r] show thesis .
  next
    case False
    with run d l obtain p where p: "rrt_path_loop (nodes st) (goalIndex st) [] = Some (Inr p)"
      and r: "res = \<lparr>visited = rvisited st, path = rev p\<rparr>"
      by (auto split: option.splits sum.splits)
    from that[OF d l p r] show thesis .
  qed
qed

lemma rrt_goal_anchored:
  assumes "rrt_loop rnd grid rows cols goal rad stp bias n (rrt_init start) = Some (Inr st)"
  shows "anchored (nodes st) (goalIndex st)"
proof -
  from rrt_loop_tree(3)[OF assms] show ?thesis
  proof
    assume "goalIndex st = -1"
    then show ?thesis by (simp add: anchored.none)
  next
    assume g: "1 < goalIndex st \<and> nat (goalIndex st) < length (nodes st)
           \<and> pt (nodes st ! nat (goalIndex st)) = goal
           \<and> parent (nodes st ! nat (goalIndex st)) = goalIndex st - 1
           \<and> cost (nodes st ! nat (goalIndex st)) = cost (nodes st ! nat (goalIndex st - 1))"
    then have "anchored (nodes st) (int (nat (goalIndex st)))"
      using rrt_loop_tree(4)[OF assms] by blast
    with g show ?thesis by simp
  qed
qed

lemma runRRTStar_returns:
  assumes "grid \<noteq> []" and "rect grid"
  shows "\<exists>res. runRRTStar rnd grid start goal os = Some (Inr res)"
proof -
  from assms(1) obtain rows cols where d: "dims grid = Inr (rows, cols)"
    by (cases grid) (auto simp: dims_def)
  have "\<forall>p e. isFree grid rows cols p \<noteq> Inl e" using isFree_rect[OF assms(2) d] by blast
  with rrt_loop_returns obtain st where l: "rrt_loop rnd grid rows cols goal (opt_radius os)
      (opt_step os) (opt_goalBias os) (opt_iterations os) (rrt_init start) = Some (Inr st)"
    by blast
  from rrt_path_loop_anchored[OF rrt_goal_anchored[OF l], of "[]"]
  obtain p where "rrt_path_loop (nodes st) (goalIndex st) [] = Some (Inr p)" by auto
  with d l show ?thesis unfolding runRRTStar_unfold by simp
qed

lemma euclid_row: "euclid (r, a) (r, b) = \<bar>real_of_int (a - b)\<bar>"
  by (simp add: euclid_def)

lemma row8_isFree:
  "0 \<le> c \<Longrightarrow> c < 8 \<Longrightarrow> isFree row8 1 8 (0, c) = Inr True"
proof -
  assume "0 \<le> c" "c < 8"
  then have "c \<in> {0, 1, 2, 3, 4, 5, 6, 7}" by auto
  then show ?thesis
    by (auto simp: isFree_def inBounds_def cellAt_def)
qed

lemma row8_lineFree:
  assumes "0 \<le> a" "a < 8" "0 \<le> b" "b < 8"
  shows "lineFree row8 1 8 (0, a) (0, b) = Some (Inr True)"
proof -
  have "\<forall>p \<in> set (bresenham (0, a) (0, b)). isFree row8 1 8 p = Inr True"
  proof
    fix p assume "p \<in> set (bresenham (0, a) (0, b))"
    then have "fst p = 0 \<and> 0 \<le> snd p \<and> snd p < 8"
      using assms by (auto simp: bresenham_def Let_def split: if_splits)
    then show "isFree row8 1 8 p = Inr True"
      using row8_isFree[of "snd p"] by (cases p) simp
  qed
  then show ?thesis by (simp add: lineFree_bresenham allFree_True)
qed

lemma upt_small:
  "[0..<Suc 0] = [0]" "[0..<2] = [0, 1]" "[0..<3] = [0, 1, 2]"
  by (simp_all add: upt_rec)

lemma row8_run_Suc:
  "rrt_loop rnd8 row8 1 8 (0, 7) 1 2 (8 / 100) (Suc (Suc (Suc 0))) (rrt_init (0, 0))
   = Some (Inr \<lparr>nodes = [\<lparr>pt = (0, 0), parent = -1, cost = 0\<rparr>,
                          \<lparr>pt = (0, 2), parent = 3, cost = 12\<rparr>,
                          \<lparr>pt = (0, 3), parent = 1, cost = 22\<rparr>,
                          \<lparr>pt = (0, 1), parent = 0, cost = 2\<rparr>],
                 rvisited = [(0, 0), (0, 2), (0, 3), (0, 1)], goalIndex = -1, rk = 9\<rparr>)"
  by (simp add: rrt_init_def row8_isFree row8_lineFree nearest_def steer_def euclid_row
      cellAt_def cellWeight_def Let_def upt_small)

lemma row8_run:
  "rrt_loop rnd8 row8 1 8 (0, 7) 1 2 (8 / 100) 3 (rrt_init (0, 0))
   = Some (Inr \<lparr>nodes = [\<lparr>pt = (0, 0), parent = -1, cost = 0\<rparr>,
                          \<lparr>pt = (0, 2), parent = 3, cost = 12\<rparr>,
                          \<lparr>pt = (0, 3), parent = 1, cost = 22\<rparr>,
                          \<lparr>pt = (0, 1), parent = 0, cost = 2\<rparr>],
                 rvisited = [(0, 0), (0, 2), (0, 3), (0, 1)], goalIndex = -1, rk = 9\<rparr>)"
  unfolding numeral_3_eq_3 by (rule row8_run_Suc)






section \<open>Acyclic parent indices\<close>

text \<open>
  C10. After any number of iterations of the sampling loop of RRT*, started from the tree
  that holds the start alone, the walk along the parent indices from every node ends at
  \<open>-1\<close>, the parent of a node is a node of the tree whose stored cost is not larger, and
  the parent walk of the path reconstruction, from the goal index, returns a path. A rewire
  keeps this (\<open>rewire_inv\<close>): the re-parented node had a stored cost above that of the new
  node, so it is not among the ancestors of the new node, whose stored costs are not larger
  than the new node's.
\<close>

theorem rrt_parents_acyclic:
  assumes "rrt_loop rnd grid rows cols goal rad stp bias n (rrt_init start) = Some (Inr st)"
  shows "(\<forall>i < length (nodes st). anchored (nodes st) (int i)
            \<and> (parent (nodes st ! i) \<noteq> -1 \<longrightarrow>
                 0 \<le> parent (nodes st ! i) \<and> nat (parent (nodes st ! i)) < length (nodes st)
                 \<and> cost (nodes st ! nat (parent (nodes st ! i))) \<le> cost (nodes st ! i)))
       \<and> (\<exists>p. rrt_path_loop (nodes st) (goalIndex st) [] = Some (Inr p))"
proof (intro conjI allI impI)
  fix i assume "i < length (nodes st)"
  then show "anchored (nodes st) (int i)" by (rule rrt_loop_tree(4)[OF assms])
next
  fix i assume i: "i < length (nodes st)" and p: "parent (nodes st ! i) \<noteq> -1"
  note t = rrt_loop_tree(6)[OF assms i p]
  from t show "0 \<le> parent (nodes st ! i)" by simp
  from t show "nat (parent (nodes st ! i)) < length (nodes st)" by simp
  from t show "cost (nodes st ! nat (parent (nodes st ! i))) \<le> cost (nodes st ! i)" by simp
next
  from rrt_path_loop_anchored[OF rrt_goal_anchored[OF assms], of "[]"]
  show "\<exists>p. rrt_path_loop (nodes st) (goalIndex st) [] = Some (Inr p)" by auto
qed

theorem rrt_parents_acyclic_witness:
  "rrt_loop rnd8 row8 1 8 (0, 7) 1 2 (8 / 100) 3 (rrt_init (0, 0)) = Some (Inr st8)
   \<and> anchored (nodes st8) 1
   \<and> cost (nodes st8 ! 3) \<le> cost (nodes st8 ! 1)
   \<and> (\<exists>p. rrt_path_loop (nodes st8) (goalIndex st8) [] = Some (Inr p))"
proof -
  note t = rrt_parents_acyclic[OF row8_run]
  from t[THEN conjunct1, THEN spec, of 1] t[THEN conjunct2] row8_run
  show ?thesis by simp
qed

section \<open>Stored and accumulated costs\<close>




lemma successively_ends_all:
  assumes "successively Q (x # y # ys)" and "\<And>a b. Q a b \<Longrightarrow> F a \<and> F b"
  shows "\<forall>z \<in> set (x # y # ys). F z"
  using assms(1)
proof (induction ys arbitrary: x y)
  case Nil
  then show ?case using assms(2)[of x y] by simp
next
  case (Cons z zs)
  from Cons.prems have "Q x y" and "successively Q (y # z # zs)" by simp_all
  with Cons.IH[of y z] assms(2)[of x y] show ?case by simp
qed

lemma isFree_freeCell: "isFree grid rows cols p = Inr True \<Longrightarrow> freeCell grid p"
  unfolding freeCell_def by (rule isFree_true_cell)

lemma rrt_path_props:
  assumes run: "rrt_loop rnd grid rows cols goal rad stp bias n (rrt_init start) = Some (Inr st)"
    and pl: "rrt_path_loop (nodes st) (goalIndex st) [] = Some (Inr p)"
  shows "successively (\<lambda>a b. lineFree grid rows cols a b = Some (Inr True)) (rev p)"
    and "\<forall>q \<in> set p. freeCell grid q"
    and "p \<noteq> [] \<longrightarrow> hd (rev p) = start \<and> last (rev p) = goal"
    and "goalIndex st = -1 \<longleftrightarrow> p = []"
proof -
  let ?ns = "nodes st"
  let ?R = "\<lambda>c par. \<exists>i < length ?ns. parent (?ns ! i) \<noteq> -1 \<and> c = pt (?ns ! i)
                \<and> par = pt (?ns ! nat (parent (?ns ! i)))"
  let ?L = "\<lambda>a b. lineFree grid rows cols a b = Some (Inr True)"
  have RL: "?L par c" if "?R c par" for c par
    using that rrt_loop_tree(6)[OF run] by blast
  have all: "successively ?L (rev p) \<and> (\<forall>q \<in> set p. freeCell grid q)
      \<and> (p \<noteq> [] \<longrightarrow> hd (rev p) = start \<and> last (rev p) = goal)
      \<and> (goalIndex st = -1 \<longleftrightarrow> p = [])"
  proof (cases "goalIndex st = -1")
    case True
    with pl have "p = []" by (simp add: rrt_path_loop.simps)
    with True show ?thesis by simp
  next
    case False
    with rrt_loop_tree(3)[OF run]
    have g: "1 < goalIndex st" "nat (goalIndex st) < length ?ns"
      "pt (?ns ! nat (goalIndex st)) = goal"
      "parent (?ns ! nat (goalIndex st)) = goalIndex st - 1" by simp_all
    let ?g = "?ns ! nat (goalIndex st)"
    have pa: "anchored ?ns (goalIndex st - 1)"
      using rrt_loop_tree(4)[OF run, of "nat (goalIndex st - 1)"] g(1,2) by simp
    from rrt_path_loop_anchored[OF pa, of "[] @ [pt ?g]"] g(1) obtain p' where
      r: "rrt_path_loop ?ns (goalIndex st - 1) ([] @ [pt ?g]) = Some (Inr (([] @ [pt ?g]) @ p'))"
      and ne: "p' \<noteq> []" and h: "hd p' = pt (?ns ! nat (goalIndex st - 1))"
      and l: "\<exists>i < length ?ns. parent (?ns ! i) = -1 \<and> last p' = pt (?ns ! i)"
      and s: "successively ?R p'"
      by auto
    have "rrt_path_loop ?ns (goalIndex st) []
        = rrt_path_loop ?ns (parent ?g) ([] @ [pt ?g])"
      using g(1,2) by (subst rrt_path_loop.simps) simp
    with r pl g(4) have p: "p = goal # p'" by (simp add: g(3))
    from ne obtain q qs where p': "p' = q # qs" by (cases p') auto
    have "?R goal q"
    proof (intro exI conjI)
      show "nat (goalIndex st) < length ?ns" by (rule g(2))
      show "parent ?g \<noteq> -1" using g(1,4) by simp
      show "goal = pt ?g" using g(3) by simp
      show "q = pt (?ns ! nat (parent ?g))" using h p' g(4) by simp
    qed
    with s p p' have sp: "successively ?R p" by simp
    have "successively (\<lambda>c par. ?L par c) p"
      by (rule successively_mono[OF sp]) (rule RL)
    then have s1: "successively ?L (rev p)" by (simp add: successively_rev)
    have "\<forall>z \<in> set (goal # q # qs). isFree grid rows cols z = Inr True"
    proof (rule successively_ends_all)
      show "successively (\<lambda>c par. ?L par c) (goal # q # qs)"
        using \<open>successively (\<lambda>c par. ?L par c) p\<close> p p' by simp
      show "\<And>a b. ?L b a \<Longrightarrow> isFree grid rows cols a = Inr True \<and> isFree grid rows cols b = Inr True"
        using lineFree_true_ends by blast
    qed
    then have s2: "\<forall>q \<in> set p. freeCell grid q" using isFree_freeCell p p' by blast
    from l obtain i where i: "i < length ?ns" "parent (?ns ! i) = -1" "last p' = pt (?ns ! i)"
      by blast
    from i(1,2) rrt_loop_tree(5)[OF run, of i] have "i = 0" by auto
    with i(3) rrt_loop_tree(2)[OF run] have "last p' = start" by simp
    with p ne have s3: "hd (rev p) = start \<and> last (rev p) = goal"
      by (simp add: hd_rev)
    from s1 s2 s3 False p show ?thesis by simp
  qed
  from all show "successively ?L (rev p)" by blast
  from all show "\<forall>q \<in> set p. freeCell grid q" by blast
  from all show "p \<noteq> [] \<longrightarrow> hd (rev p) = start \<and> last (rev p) = goal" by blast
  from all show "goalIndex st = -1 \<longleftrightarrow> p = []" by blast
qed

lemma runRRTStar_path:
  assumes "runRRTStar rnd grid start goal os = Some (Inr res)"
    and "dims grid = Inr (rows, cols)"
  shows "successively (\<lambda>a b. lineFree grid rows cols a b = Some (Inr True)) (path res)"
    and "\<forall>q \<in> set (path res). freeCell grid q"
    and "path res \<noteq> [] \<longrightarrow> hd (path res) = start \<and> last (path res) = goal"
proof -
  from assms(1) obtain rows' cols' st p where d: "dims grid = Inr (rows', cols')"
    and l: "rrt_loop rnd grid rows' cols' goal (opt_radius os) (opt_step os) (opt_goalBias os)
           (opt_iterations os) (rrt_init start) = Some (Inr st)"
    and pl: "rrt_path_loop (nodes st) (goalIndex st) [] = Some (Inr p)"
    and r: "res = \<lparr>visited = rvisited st, path = rev p\<rparr>"
    by (rule runRRTStar_cases)
  from d assms(2) have e: "rows' = rows" "cols' = cols" by simp_all
  note t = rrt_path_props[OF l[unfolded e] pl]
  from t(1) show "successively (\<lambda>a b. lineFree grid rows cols a b = Some (Inr True)) (path res)"
    by (simp add: r)
  from t(2) show "\<forall>q \<in> set (path res). freeCell grid q" by (simp add: r)
  from t(3) show "path res \<noteq> [] \<longrightarrow> hd (path res) = start \<and> last (path res) = goal"
    by (simp add: r)
qed

lemma row3_isFree:
  "isFree row3 1 3 (0, 0) = Inr True" "isFree row3 1 3 (0, 1) = Inr True"
  "isFree row3 1 3 (0, 2) = Inr True"
  by (simp_all add: isFree_def inBounds_def cellAt_def)

lemma row3_lineFree:
  "lineFree row3 1 3 (0, 0) (0, 2) = Some (Inr True)"
  "lineFree row3 1 3 (0, 2) (0, 0) = Some (Inr True)"
  "lineFree row3 1 3 (0, 2) (0, 2) = Some (Inr True)"
  by (simp_all add: lineFree_bresenham bresenham_def Let_def row3_isFree upto_rec1)

lemma row3_rrt_loop:
  "0 < n \<Longrightarrow> 0 < bias \<Longrightarrow>
   rrt_loop (\<lambda>_. 0) row3 1 3 (0, 2) 4 2 bias n (rrt_init (0, 0))
   = Some (Inr \<lparr>nodes = [\<lparr>pt = (0, 0), parent = -1, cost = 0\<rparr>,
                          \<lparr>pt = (0, 2), parent = 0, cost = 4\<rparr>,
                          \<lparr>pt = (0, 2), parent = 1, cost = 4\<rparr>],
                 rvisited = [(0, 0), (0, 2)], goalIndex = 2, rk = 1\<rparr>)"
  by (cases n) (simp_all add: rrt_init_def row3_isFree row3_lineFree nearest_def steer_def
      euclid_row cellAt_def cellWeight_def Let_def upt_small)

lemma row3_rrt_run:
  "runRRTStar (\<lambda>_. 0) row3 (0, 0) (0, 2) page_opts
   = Some (Inr \<lparr>visited = [(0, 0), (0, 2)], path = [(0, 0), (0, 2), (0, 2)]\<rparr>)"
  by (simp add: runRRTStar_unfold dims_def opt_radius_def opt_step_def opt_goalBias_def
      opt_iterations_def row3_rrt_loop rrt_path_loop.simps del: rrt_loop.simps)

lemma row3_dijkstra_run:
  "runDijkstra row3 (0, 0) (0, 2) False
   = Some (Inr \<lparr>visited = [(0, 0), (0, 1), (0, 2)], path = [(0, 0), (0, 1), (0, 2)]\<rparr>)"
  by code_simp

section \<open>The steps of a returned path\<close>

text \<open>
  C1, as stated, fails. RRT* steers by up to \<open>step\<close> cells and appends the goal as a node
  of its own: on a row of three free cells its path is \<open>(0, 0), (0, 2), (0, 2)\<close>, and
  \<open>(0, 2)\<close> is not adjacent to \<open>(0, 0)\<close> under either connectivity. Dijkstra, started
  on a wall, returns a path that begins on the wall.
\<close>

theorem path_steps_counterexample:
  "runRRTStar (\<lambda>_. 0) row3 (0, 0) (0, 2) page_opts
     = Some (Inr \<lparr>visited = [(0, 0), (0, 2)], path = [(0, 0), (0, 2), (0, 2)]\<rparr>)
   \<and> \<not> adjacent False (0, 0) (0, 2) \<and> \<not> adjacent True (0, 0) (0, 2)
   \<and> runDijkstra [[\<lparr>wall = True, weight = Some 2\<rparr>, c2]] (0, 0) (0, 1) False
     = Some (Inr \<lparr>visited = [(0, 0), (0, 1)], path = [(0, 0), (0, 1)]\<rparr>)
   \<and> \<not> freeCell [[\<lparr>wall = True, weight = Some 2\<rparr>, c2]] (0, 0)"
proof (intro conjI)
  show "runRRTStar (\<lambda>_. 0) row3 (0, 0) (0, 2) page_opts
     = Some (Inr \<lparr>visited = [(0, 0), (0, 2)], path = [(0, 0), (0, 2), (0, 2)]\<rparr>)"
    by (rule row3_rrt_run)
  show "\<not> adjacent False (0, 0) (0, 2)" by (simp add: adjacent_def DIRS4_def)
  show "\<not> adjacent True (0, 0) (0, 2)" by (simp add: adjacent_def DIRS8_def DIRS4_def)
  show "runDijkstra [[\<lparr>wall = True, weight = Some 2\<rparr>, c2]] (0, 0) (0, 1) False
     = Some (Inr \<lparr>visited = [(0, 0), (0, 1)], path = [(0, 0), (0, 1)]\<rparr>)"
    by code_simp
  show "\<not> freeCell [[\<lparr>wall = True, weight = Some 2\<rparr>, c2]] (0, 0)"
    by (simp add: freeCell_def cellAt_def)
qed

text \<open>
  C1, amended. In a path returned by Dijkstra or A*, every coordinate is adjacent to its
  predecessor under the configured connectivity, and every coordinate after the first is a
  free cell of the grid. In a path returned by RRT*, every coordinate is a free cell of the
  grid, and the line walk of the collision check from each coordinate to the next finds
  free cells only.
\<close>

theorem path_steps:
  "((runDijkstra grid start goal diag = Some (Inr res)
       \<or> runAStar grid start goal diag = Some (Inr res)) \<longrightarrow>
      successively (adjacent diag) (path res)
      \<and> (\<forall>p \<in> set (tl (path res)). freeCell grid p))
   \<and> (runRRTStar rnd grid start goal os = Some (Inr res') \<and> dims grid = Inr (rows, cols) \<longrightarrow>
      (\<forall>p \<in> set (path res'). freeCell grid p)
      \<and> successively (\<lambda>a b. lineFree grid rows cols a b = Some (Inr True)) (path res'))"
proof (intro conjI impI)
  assume "runDijkstra grid start goal diag = Some (Inr res)
       \<or> runAStar grid start goal diag = Some (Inr res)"
  then obtain h where h: "astar_run h grid start goal diag = Some (Inr res)"
    unfolding runDijkstra_astar_run runAStar_astar_run by blast
  from astar_run_props(1)[OF h] show "successively (adjacent diag) (path res)" .
  from astar_run_props(2)[OF h] show "\<forall>p \<in> set (tl (path res)). freeCell grid p" .
next
  assume a: "runRRTStar rnd grid start goal os = Some (Inr res') \<and> dims grid = Inr (rows, cols)"
  then have r: "runRRTStar rnd grid start goal os = Some (Inr res')"
    and d: "dims grid = Inr (rows, cols)" by simp_all
  from runRRTStar_path(2)[OF r d] show "\<forall>p \<in> set (path res'). freeCell grid p" .
  from runRRTStar_path(1)[OF r d]
  show "successively (\<lambda>a b. lineFree grid rows cols a b = Some (Inr True)) (path res')" .
qed

theorem path_steps_witness:
  "runDijkstra row3 (0, 0) (0, 2) False
     = Some (Inr \<lparr>visited = [(0, 0), (0, 1), (0, 2)], path = [(0, 0), (0, 1), (0, 2)]\<rparr>)
   \<and> adjacent False (0, 0) (0, 1) \<and> adjacent False (0, 1) (0, 2)
   \<and> freeCell row3 (0, 1) \<and> freeCell row3 (0, 2)
   \<and> runRRTStar (\<lambda>_. 0) row3 (0, 0) (0, 2) page_opts
     = Some (Inr \<lparr>visited = [(0, 0), (0, 2)], path = [(0, 0), (0, 2), (0, 2)]\<rparr>)
   \<and> freeCell row3 (0, 0)
   \<and> lineFree row3 1 3 (0, 0) (0, 2) = Some (Inr True)
   \<and> lineFree row3 1 3 (0, 2) (0, 2) = Some (Inr True)"
proof -
  have d: "dims row3 = Inr (1, 3)" by (simp add: dims_def)
  from path_steps[of row3 "(0, 0)" "(0, 2)" False
      "\<lparr>visited = [(0, 0), (0, 1), (0, 2)], path = [(0, 0), (0, 1), (0, 2)]\<rparr>"
      "\<lambda>_. 0" page_opts
      "\<lparr>visited = [(0, 0), (0, 2)], path = [(0, 0), (0, 2), (0, 2)]\<rparr>" 1 3]
    row3_dijkstra_run row3_rrt_run d
  show ?thesis by simp
qed

lemma empty_grid_raises:
  "runDijkstra [] start goal diag = Some (Inl TypeError)"
  "runAStar [] start goal diag = Some (Inl TypeError)"
  "runRRTStar rnd [] start goal os = Some (Inl TypeError)"
  by (simp_all add: runDijkstra_def runAStar_def runRRTStar_def dims_def)

section \<open>Invalid input\<close>

text \<open>
  C5, as stated, fails: the planners do not check their input. With a goal outside the
  grid Dijkstra, A* and RRT* run the search and return an ordinary result with the empty
  path; so does Dijkstra on a grid whose only row has no cells.
\<close>

theorem invalid_input_counterexample:
  "\<not> inBounds 5 5 1 3
   \<and> runDijkstra row3 (0, 0) (5, 5) False
     = Some (Inr \<lparr>visited = [(0, 0), (0, 1), (0, 2)], path = []\<rparr>)
   \<and> runAStar row3 (0, 0) (5, 5) False
     = Some (Inr \<lparr>visited = [(0, 0), (0, 1), (0, 2)], path = []\<rparr>)
   \<and> runRRTStar (\<lambda>_. 0) row3 (0, 0) (5, 5)
       \<lparr>iterations = Some 2, radius = Some 4, step = Some 2, goalBias = None\<rparr>
     = Some (Inr \<lparr>visited = [(0, 0)], path = []\<rparr>)
   \<and> runDijkstra [[]] (0, 0) (0, 0) False = Some (Inr \<lparr>visited = [(0, 0)], path = []\<rparr>)"
proof (intro conjI)
  show "\<not> inBounds 5 5 1 3" by (simp add: inBounds_def)
  show "runDijkstra row3 (0, 0) (5, 5) False
     = Some (Inr \<lparr>visited = [(0, 0), (0, 1), (0, 2)], path = []\<rparr>)"
    by code_simp
  show "runAStar row3 (0, 0) (5, 5) False
     = Some (Inr \<lparr>visited = [(0, 0), (0, 1), (0, 2)], path = []\<rparr>)"
    by code_simp
  show "runRRTStar (\<lambda>_. 0) row3 (0, 0) (5, 5)
       \<lparr>iterations = Some 2, radius = Some 4, step = Some 2, goalBias = None\<rparr>
     = Some (Inr \<lparr>visited = [(0, 0)], path = []\<rparr>)"
    by (simp add: runRRTStar_def dims_def isFree_def inBounds_def numeral_2_eq_2)
  show "runDijkstra [[]] (0, 0) (0, 0) False = Some (Inr \<lparr>visited = [(0, 0)], path = []\<rparr>)"
    by code_simp
qed

text \<open>
  C5, amended. On a rectangular grid with at least one row, Dijkstra, A* and RRT* return an
  ordinary result for every start and every goal, inside the grid or not, occupied or not.
  On the grid without rows the three planners raise a \<^verbatim>\<open>TypeError\<close>, from reading
  \<^verbatim>\<open>grid[0].length\<close>.
\<close>

theorem no_input_validation:
  "(grid \<noteq> [] \<and> rect grid \<longrightarrow>
      (\<exists>res. runDijkstra grid start goal diag = Some (Inr res))
      \<and> (\<exists>res. runAStar grid start goal diag = Some (Inr res))
      \<and> (\<exists>res. runRRTStar rnd grid start goal os = Some (Inr res)))
   \<and> runDijkstra [] start goal diag = Some (Inl TypeError)
   \<and> runAStar [] start goal diag = Some (Inl TypeError)
   \<and> runRRTStar rnd [] start goal os = Some (Inl TypeError)"
proof (intro conjI impI)
  assume a: "grid \<noteq> [] \<and> rect grid"
  then have n: "grid \<noteq> []" and r: "rect grid" by simp_all
  show "\<exists>res. runDijkstra grid start goal diag = Some (Inr res)"
    unfolding runDijkstra_astar_run by (rule astar_run_returns[OF n r])
  show "\<exists>res. runAStar grid start goal diag = Some (Inr res)"
    unfolding runAStar_astar_run by (rule astar_run_returns[OF n r])
  show "\<exists>res. runRRTStar rnd grid start goal os = Some (Inr res)"
    by (rule runRRTStar_returns[OF n r])
qed (rule empty_grid_raises)+

theorem no_input_validation_witness:
  "rect [[\<lparr>wall = True, weight = Some 2\<rparr>, c2]]
   \<and> (\<exists>res. runDijkstra [[\<lparr>wall = True, weight = Some 2\<rparr>, c2]] (0, 0) (7, 7) True
              = Some (Inr res))
   \<and> (\<exists>res. runAStar [[\<lparr>wall = True, weight = Some 2\<rparr>, c2]] (0, 0) (7, 7) True
              = Some (Inr res))
   \<and> (\<exists>res. runRRTStar rnd8 [[\<lparr>wall = True, weight = Some 2\<rparr>, c2]] (0, 0) (7, 7) page_opts
              = Some (Inr res))"
proof -
  have r: "rect [[\<lparr>wall = True, weight = Some 2\<rparr>, c2]]" by (simp add: rect_def)
  from no_input_validation[of "[[\<lparr>wall = True, weight = Some 2\<rparr>, c2]]" "(0, 0)" "(7, 7)" True
      rnd8 page_opts] r
  show ?thesis by simp
qed

section \<open>The order of the heap\<close>

lemma nth_swap:
  "i < length a \<Longrightarrow> j < length a \<Longrightarrow> k < length a \<Longrightarrow>
   swap a i j ! k = (if k = j then a ! i else if k = i then a ! j else a ! k)"
  by (simp add: swap_def nth_list_update)

lemma par_less: "0 < j \<Longrightarrow> (j - 1) div 2 < (j::nat)"
  by arith

lemma par_child: "0 < j \<Longrightarrow> ((j - 1) div 2 = i) = (j = 2 * i + 1 \<or> j = 2 * i + (2::nat))"
  by arith

lemma up_heap:
  assumes "i < length a"
    and "\<forall>j < length a. 0 < j \<longrightarrow> j \<noteq> i \<longrightarrow> prio (a ! ((j - 1) div 2)) \<le> prio (a ! j)"
    and "\<forall>j < length a. 0 < j \<longrightarrow> (j - 1) div 2 = i \<longrightarrow> 0 < i \<longrightarrow>
           prio (a ! ((i - 1) div 2)) \<le> prio (a ! j)"
  shows "heap (up a i)"
  using assms
proof (induction a i rule: up.induct)
  case (1 a i)
  note il = "1.prems"(1) and A = "1.prems"(2)[rule_format] and B = "1.prems"(3)[rule_format]
  show ?case
  proof (cases "0 < i")
    case False
    then have "up a i = a" by (subst up.simps) simp
    moreover have "heap a" unfolding heap_def using A False by auto
    ultimately show ?thesis by simp
  next
    case pos: True
    define p where "p = (i - 1) div 2"
    have pi: "p < i" unfolding p_def using pos by (rule par_less)
    with il have pl: "p < length a" by simp
    show ?thesis
    proof (cases "prio (a ! p) \<le> prio (a ! i)")
      case True
      then have "up a i = a" using pos by (subst up.simps) (simp add: p_def Let_def)
      moreover have "heap a"
        unfolding heap_def
      proof (intro allI impI)
        fix j assume "j < length a" "0 < j"
        then show "prio (a ! ((j - 1) div 2)) \<le> prio (a ! j)"
          using A[of j] True by (cases "j = i") (simp_all add: p_def)
      qed
      ultimately show ?thesis by simp
    next
      case False
      then have lt: "prio (a ! i) < prio (a ! p)" by simp
      let ?b = "swap a p i"
      have e: "up a i = up ?b p" using pos False by (subst up.simps) (simp add: p_def Let_def)
      have nb: "\<And>k. k < length a \<Longrightarrow>
          ?b ! k = (if k = i then a ! p else if k = p then a ! i else a ! k)"
        using nth_swap[OF pl il] by simp
      have lb: "length ?b = length a" by simp
      have "heap (up ?b p)"
      proof (rule "1.IH"[OF pos p_def False])
        show "p < length ?b" using pl by simp
        show "\<forall>j < length ?b. 0 < j \<longrightarrow> j \<noteq> p \<longrightarrow>
            prio (?b ! ((j - 1) div 2)) \<le> prio (?b ! j)"
        proof (intro allI impI)
          fix j assume j: "j < length ?b" "0 < j" "j \<noteq> p"
          then have jl: "j < length a" by simp
          define q where "q = (j - 1) div 2"
          have qj: "q < j" unfolding q_def using j(2) by (rule par_less)
          with jl have ql: "q < length a" by simp
          show "prio (?b ! ((j - 1) div 2)) \<le> prio (?b ! j)"
            unfolding q_def[symmetric]
          proof (cases "j = i")
            case True
            then have "q = p" by (simp add: q_def p_def)
            with True lt show "prio (?b ! q) \<le> prio (?b ! j)"
              using nb[OF il] nb[OF pl] pi by simp
          next
            case ji: False
            have bj: "?b ! j = a ! j" using nb[OF jl] ji j(3) by simp
            have aj: "prio (a ! q) \<le> prio (a ! j)" using A[OF jl j(2) ji] by (simp add: q_def)
            show "prio (?b ! q) \<le> prio (?b ! j)"
            proof (cases "q = p")
              case True
              then have "?b ! q = a ! i" using nb[OF pl] pi by simp
              with aj lt True bj show ?thesis by simp
            next
              case qp: False
              show ?thesis
              proof (cases "q = i")
                case True
                then have "?b ! q = a ! p" using nb[OF il] by simp
                moreover have "prio (a ! p) \<le> prio (a ! j)"
                  using B[OF jl j(2) _ pos] True by (simp add: q_def p_def)
                ultimately show ?thesis using bj by simp
              next
                case False
                then have "?b ! q = a ! q" using nb[OF ql] qp by simp
                with aj bj show ?thesis by simp
              qed
            qed
          qed
        qed
        show "\<forall>j < length ?b. 0 < j \<longrightarrow> (j - 1) div 2 = p \<longrightarrow> 0 < p \<longrightarrow>
           prio (?b ! ((p - 1) div 2)) \<le> prio (?b ! j)"
        proof (intro allI impI)
          fix j assume j: "j < length ?b" "0 < j" "(j - 1) div 2 = p" "0 < p"
          then have jl: "j < length a" by simp
          define q where "q = (p - 1) div 2"
          have qp: "q < p" unfolding q_def using j(4) by (rule par_less)
          with pl pi have ql: "q < length a" and qi: "q \<noteq> i" by simp_all
          have bq: "?b ! q = a ! q" using nb[OF ql] qp qi by simp
          have pneq: "p \<noteq> i" using pi by simp
          have qa: "prio (a ! q) \<le> prio (a ! p)"
            using A[OF pl j(4) pneq] by (simp add: q_def)
          have jp: "j \<noteq> p" using j(2,3) par_less[of j] by auto
          show "prio (?b ! ((p - 1) div 2)) \<le> prio (?b ! j)"
            unfolding q_def[symmetric]
          proof (cases "j = i")
            case True
            then have "?b ! j = a ! p" using nb[OF il] by simp
            with bq qa show "prio (?b ! q) \<le> prio (?b ! j)" by simp
          next
            case False
            then have "?b ! j = a ! j" using nb[OF jl] jp by simp
            moreover have "prio (a ! p) \<le> prio (a ! j)"
              using A[OF jl j(2) False] j(3) by simp
            ultimately show "prio (?b ! q) \<le> prio (?b ! j)" using bq qa by simp
          qed
        qed
      qed
      with e show ?thesis by simp
    qed
  qed
qed

lemma push_heap:
  assumes "heap a"
  shows "heap (push a x)"
  unfolding push_def
proof (rule up_heap)
  show "length a < length (a @ [x])" by simp
  show "\<forall>j < length (a @ [x]). 0 < j \<longrightarrow> j \<noteq> length a \<longrightarrow>
      prio ((a @ [x]) ! ((j - 1) div 2)) \<le> prio ((a @ [x]) ! j)"
  proof (intro allI impI)
    fix j assume j: "j < length (a @ [x])" "0 < j" "j \<noteq> length a"
    then have jl: "j < length a" by simp
    with par_less[OF j(2)] have "(j - 1) div 2 < length a" by simp
    with jl assms j(2) show "prio ((a @ [x]) ! ((j - 1) div 2)) \<le> prio ((a @ [x]) ! j)"
      by (simp add: nth_append heap_def)
  qed
  show "\<forall>j < length (a @ [x]). 0 < j \<longrightarrow> (j - 1) div 2 = length a \<longrightarrow> 0 < length a \<longrightarrow>
      prio ((a @ [x]) ! ((length a - 1) div 2)) \<le> prio ((a @ [x]) ! j)"
  proof (intro allI impI)
    fix j assume j: "j < length (a @ [x])" "0 < j" "(j - 1) div 2 = length a"
    from par_less[OF j(2)] j(1,3) have False by simp
    then show "prio ((a @ [x]) ! ((length a - 1) div 2)) \<le> prio ((a @ [x]) ! j)" ..
  qed
qed

lemma heap_min:
  assumes "heap a" and "i < length a"
  shows "prio (a ! 0) \<le> prio (a ! i)"
  using assms(2)
proof (induction i rule: less_induct)
  case (less i)
  show ?case
  proof (cases "i = 0")
    case True
    then show ?thesis by simp
  next
    case False
    then have pos: "0 < i" by simp
    from par_less[OF pos] less.prems have "(i - 1) div 2 < length a" by simp
    from less.IH[OF par_less[OF pos] this]
    have "prio (a ! 0) \<le> prio (a ! ((i - 1) div 2))" .
    also have "\<dots> \<le> prio (a ! i)" using assms(1) less.prems pos by (simp add: heap_def)
    finally show ?thesis .
  qed
qed

lemma down_heap:
  assumes "\<forall>j < length a. 0 < j \<longrightarrow> (j - 1) div 2 \<noteq> i \<longrightarrow>
             prio (a ! ((j - 1) div 2)) \<le> prio (a ! j)"
    and "\<forall>j < length a. 0 < j \<longrightarrow> (j - 1) div 2 = i \<longrightarrow> 0 < i \<longrightarrow>
           prio (a ! ((i - 1) div 2)) \<le> prio (a ! j)"
  shows "heap (down a i)"
  using assms
proof (induction a i rule: down.induct)
  case (1 a i)
  note A = "1.prems"(1)[rule_format] and B = "1.prems"(2)[rule_format]
  define n where "n = length a"
  define l where "l = i * 2 + 1"
  define r where "r = l + 1"
  define m1 where "m1 = (if l < n \<and> prio (a ! l) < prio (a ! i) then l else i)"
  define m where "m = (if r < n \<and> prio (a ! r) < prio (a ! m1) then r else m1)"
  have e: "down a i = (if m = i then a else down (swap a i m) m)"
    by (subst down.simps) (simp add: Let_def n_def l_def r_def m1_def m_def)
  have ch: "\<And>j. 0 < j \<Longrightarrow> ((j - 1) div 2 = i) = (j = l \<or> j = r)"
    unfolding l_def r_def by arith
  have ml: "prio (a ! m) \<le> prio (a ! i)" unfolding m_def m1_def by auto
  have mL: "l < n \<Longrightarrow> prio (a ! m) \<le> prio (a ! l)" unfolding m_def m1_def by auto
  have mR: "r < n \<Longrightarrow> prio (a ! m) \<le> prio (a ! r)" unfolding m_def m1_def by auto
  show ?case
  proof (cases "m = i")
    case True
    have "heap a"
      unfolding heap_def
    proof (intro allI impI)
      fix j assume j: "j < length a" "0 < j"
      show "prio (a ! ((j - 1) div 2)) \<le> prio (a ! j)"
      proof (cases "(j - 1) div 2 = i")
        case False
        then show ?thesis by (rule A[OF j])
      next
        case pi: True
        with ch[OF j(2)] have "j = l \<or> j = r" by simp
        then show ?thesis using mL mR j(1) True pi by (auto simp: n_def)
      qed
    qed
    with e True show ?thesis by simp
  next
    case False
    then have mc: "m = l \<or> m = r" and mn: "m < n" and lt': "prio (a ! m) < prio (a ! i)"
      unfolding m_def m1_def by (auto split: if_splits)
    have im: "i < m" using mc unfolding l_def r_def by auto
    with mn have iL: "i < length a" and mL': "m < length a" by (simp_all add: n_def)
    have pm: "(m - 1) div 2 = i" using mc ch[of m] im by simp
    let ?b = "swap a i m"
    have nb: "\<And>k. k < length a \<Longrightarrow>
        ?b ! k = (if k = m then a ! i else if k = i then a ! m else a ! k)"
      using nth_swap[OF iL mL'] by simp
    have "heap (down ?b m)"
    proof (rule "1.IH"[OF n_def l_def r_def m1_def m_def False])
      show "\<forall>j < length ?b. 0 < j \<longrightarrow> (j - 1) div 2 \<noteq> m \<longrightarrow>
             prio (?b ! ((j - 1) div 2)) \<le> prio (?b ! j)"
      proof (intro allI impI)
        fix j assume j: "j < length ?b" "0 < j" "(j - 1) div 2 \<noteq> m"
        then have jl: "j < length a" by simp
        define q where "q = (j - 1) div 2"
        have qj: "q < j" unfolding q_def using j(2) by (rule par_less)
        with jl have ql: "q < length a" by simp
        have qm: "q \<noteq> m" using j(3) by (simp add: q_def)
        show "prio (?b ! ((j - 1) div 2)) \<le> prio (?b ! j)"
          unfolding q_def[symmetric]
        proof (cases "q = i")
          case True
          then have bq: "?b ! q = a ! m" using nb[OF iL] im by simp
          from True ch[OF j(2)] have jc: "j = l \<or> j = r" by (simp add: q_def)
          show "prio (?b ! q) \<le> prio (?b ! j)"
          proof (cases "j = m")
            case True
            then have "?b ! j = a ! i" using nb[OF mL'] by simp
            with bq ml show ?thesis by simp
          next
            case False
            then have "?b ! j = a ! j" using nb[OF jl] qj True by simp
            moreover have "prio (a ! m) \<le> prio (a ! j)"
              using jc mL mR jl by (auto simp: n_def)
            ultimately show ?thesis using bq by simp
          qed
        next
          case qi: False
          then have bq: "?b ! q = a ! q" using nb[OF ql] qm by simp
          have jm: "j \<noteq> m" using pm qi by (auto simp: q_def)
          show "prio (?b ! q) \<le> prio (?b ! j)"
          proof (cases "j = i")
            case True
            then have "?b ! j = a ! m" using nb[OF iL] im by simp
            moreover have "prio (a ! ((i - 1) div 2)) \<le> prio (a ! m)"
              using B[OF mL' _ pm] im True j(2) by simp
            ultimately show ?thesis using bq True by (simp add: q_def)
          next
            case False
            then have "?b ! j = a ! j" using nb[OF jl] jm by simp
            moreover have "prio (a ! q) \<le> prio (a ! j)"
              using A[OF jl j(2)] qi by (simp add: q_def)
            ultimately show ?thesis using bq by simp
          qed
        qed
      qed
      show "\<forall>j < length ?b. 0 < j \<longrightarrow> (j - 1) div 2 = m \<longrightarrow> 0 < m \<longrightarrow>
           prio (?b ! ((m - 1) div 2)) \<le> prio (?b ! j)"
      proof (intro allI impI)
        fix j assume j: "j < length ?b" "0 < j" "(j - 1) div 2 = m" "0 < m"
        then have jl: "j < length a" by simp
        have mj: "m < j" using par_less[OF j(2)] j(3) by simp
        then have "?b ! j = a ! j" using nb[OF jl] im by simp
        moreover have "?b ! ((m - 1) div 2) = a ! m" using nb[OF iL] pm im by simp
        moreover have "prio (a ! m) \<le> prio (a ! j)"
          using A[OF jl j(2)] j(3) im by simp
        ultimately show "prio (?b ! ((m - 1) div 2)) \<le> prio (?b ! j)" by simp
      qed
    qed
    with e False show ?thesis by simp
  qed
qed

lemma pop_heap:
  assumes "heap a" and "pop a = Some (tp, a')"
  shows "heap a'" and "\<forall>e \<in> set a. prio tp \<le> prio e"
proof -
  from assms(2) have ne: "a \<noteq> []" by (auto simp: pop_def split: if_splits)
  from assms(2) ne have tp: "tp = a ! 0" by (auto simp: pop_def Let_def split: if_splits)
  show "\<forall>e \<in> set a. prio tp \<le> prio e"
  proof
    fix e assume "e \<in> set a"
    then obtain i where "i < length a" "e = a ! i" by (auto simp: in_set_conv_nth)
    with heap_min[OF assms(1)] tp show "prio tp \<le> prio e" by simp
  qed
  show "heap a'"
  proof (cases "butlast a = []")
    case True
    with assms(2) ne have "a' = []" by (auto simp: pop_def Let_def split: if_splits)
    then show ?thesis by (simp add: heap_def)
  next
    case False
    let ?b = "(butlast a)[0 := last a]"
    from assms(2) ne False have a': "a' = down ?b 0"
      by (auto simp: pop_def Let_def split: if_splits)
    have "heap (down ?b 0)"
    proof (rule down_heap)
      show "\<forall>j < length ?b. 0 < j \<longrightarrow> (j - 1) div 2 \<noteq> 0 \<longrightarrow>
             prio (?b ! ((j - 1) div 2)) \<le> prio (?b ! j)"
      proof (intro allI impI)
        fix j assume j: "j < length ?b" "0 < j" "(j - 1) div 2 \<noteq> 0"
        then have jb: "j < length (butlast a)" by simp
        then have jl: "j < length a" by simp
        from par_less[OF j(2)] jb have qb: "(j - 1) div 2 < length (butlast a)" by simp
        have "?b ! j = a ! j" using j(2) jb by (simp add: nth_butlast)
        moreover have "?b ! ((j - 1) div 2) = a ! ((j - 1) div 2)"
          using j(3) qb by (simp add: nth_butlast)
        moreover have "prio (a ! ((j - 1) div 2)) \<le> prio (a ! j)"
          using assms(1) jl j(2) by (simp add: heap_def)
        ultimately show "prio (?b ! ((j - 1) div 2)) \<le> prio (?b ! j)" by simp
      qed
    qed simp
    with a' show ?thesis by simp
  qed
qed

lemma heap_Nil: "heap []"
  by (simp add: heap_def)

section \<open>Optimality of the searches\<close>

lemma oinvI:
  assumes "heap (apq s)"
    and "\<And>k. fsc s k = map_option (\<lambda>g. real g + h k goal) (gsc s k)"
    and "\<And>k g. gsc s k = Some g \<Longrightarrow>
          (real g + h k goal, k) \<in> set (apq s) \<or> relaxed grid rows cols diag s k g"
  shows "oinv h grid rows cols diag goal s"
  unfolding oinv_def using assms by blast

lemma oinv_heap: "oinv h grid rows cols diag goal s \<Longrightarrow> heap (apq s)"
  by (simp add: oinv_def)

lemma oinv_fsc:
  "oinv h grid rows cols diag goal s \<Longrightarrow> fsc s k = map_option (\<lambda>g. real g + h k goal) (gsc s k)"
  unfolding oinv_def by blast

lemma oinv_live:
  "oinv h grid rows cols diag goal s \<Longrightarrow> gsc s k = Some g
   \<Longrightarrow> (real g + h k goal, k) \<in> set (apq s) \<or> relaxed grid rows cols diag s k g"
  unfolding oinv_def by blast

lemma oinv_init: "oinv h grid rows cols diag goal (astar_init h start goal)"
proof (rule oinvI)
  show "heap (apq (astar_init h start goal))"
    by (simp add: astar_init_def push_heap heap_Nil)
  show "\<And>k. fsc (astar_init h start goal) k
      = map_option (\<lambda>g. real g + h k goal) (gsc (astar_init h start goal) k)"
    by (simp add: astar_init_def)
  show "\<And>k g. gsc (astar_init h start goal) k = Some g \<Longrightarrow>
          (real g + h k goal, k) \<in> set (apq (astar_init h start goal))
          \<or> relaxed grid rows cols diag (astar_init h start goal) k g"
    by (auto simp: astar_init_def set_push split: if_splits)
qed

lemma oinv_stale:
  assumes inv: "oinv h grid rows cols diag goal s" and pp: "pop (apq s) = Some (cur, pq')"
    and st: "fsc s (node cur) \<noteq> Some (prio cur)"
  shows "oinv h grid rows cols diag goal (s\<lparr>apq := pq'\<rparr>)"
proof (rule oinvI)
  show "heap (apq (s\<lparr>apq := pq'\<rparr>))" using pop_heap(1)[OF oinv_heap[OF inv] pp] by simp
  show "\<And>k. fsc (s\<lparr>apq := pq'\<rparr>) k
      = map_option (\<lambda>g. real g + h k goal) (gsc (s\<lparr>apq := pq'\<rparr>) k)"
    using oinv_fsc[OF inv] by simp
  fix k g assume g: "gsc (s\<lparr>apq := pq'\<rparr>) k = Some g"
  then have g': "gsc s k = Some g" by simp
  from oinv_live[OF inv g']
  show "(real g + h k goal, k) \<in> set (apq (s\<lparr>apq := pq'\<rparr>))
          \<or> relaxed grid rows cols diag (s\<lparr>apq := pq'\<rparr>) k g"
  proof
    assume m: "(real g + h k goal, k) \<in> set (apq s)"
    have "(real g + h k goal, k) \<noteq> cur"
    proof
      assume e: "(real g + h k goal, k) = cur"
      then have "node cur = k" and "prio cur = real g + h k goal" by auto
      with oinv_fsc[OF inv, of k] g' st show False by simp
    qed
    with m set_pop[OF pp] show ?thesis by auto
  next
    assume "relaxed grid rows cols diag s k g"
    then show ?thesis by (simp add: relaxed_def)
  qed
qed

lemma relaxed_mono:
  assumes "relaxed grid rows cols diag s k g"
    and "\<And>x gx. gsc s x = Some gx \<Longrightarrow> \<exists>gy. gsc s' x = Some gy \<and> gy \<le> gx"
  shows "relaxed grid rows cols diag s' k g"
  unfolding relaxed_def
proof (intro allI impI)
  fix nb assume "edge grid rows cols diag k nb"
  with assms(1) obtain gn where gn: "gsc s nb = Some gn" "gn \<le> g + wt grid nb"
    unfolding relaxed_def by blast
  from assms(2)[OF gn(1)] gn(2) show "\<exists>gn. gsc s' nb = Some gn \<and> gn \<le> g + wt grid nb"
    by fastforce
qed

lemma oinv_expand:
  assumes inv: "oinv h grid rows cols diag goal s" and pp: "pop (apq s) = Some (cur, pq')"
    and lv: "fsc s (node cur) = Some (prio cur)"
    and ar: "arelax h grid goal (node cur)
               (neighbors (fst (node cur)) (snd (node cur)) rows cols diag)
               (s\<lparr>apq := pq', avisited := avisited s @ [node cur]\<rparr>) = Inr s2"
  shows "oinv h grid rows cols diag goal s2"
proof -
  define c where "c = node cur"
  define N where "N = neighbors (fst c) (snd c) rows cols diag"
  from lv oinv_fsc[OF inv, of c] obtain gc where gc: "gsc s c = Some gc"
    by (cases "gsc s c") (auto simp: c_def)
  define J where "J = (\<lambda>nbs s'. heap (apq s')
      \<and> (\<forall>k. fsc s' k = map_option (\<lambda>g. real g + h k goal) (gsc s' k))
      \<and> gsc s' c = Some gc \<and> set nbs \<subseteq> set N
      \<and> (\<forall>k g. gsc s' k = Some g \<longrightarrow> k \<noteq> c \<longrightarrow>
            (real g + h k goal, k) \<in> set (apq s') \<or> relaxed grid rows cols diag s' k g)
      \<and> (\<forall>nb. edge grid rows cols diag c nb \<longrightarrow> nb \<notin> set nbs \<longrightarrow>
            (\<exists>gn. gsc s' nb = Some gn \<and> gn \<le> gc + wt grid nb)))"
  let ?s1 = "s\<lparr>apq := pq', avisited := avisited s @ [c]\<rparr>"
  have J0: "J N ?s1"
    unfolding J_def
  proof (intro conjI allI impI)
    show "heap (apq ?s1)" using pop_heap(1)[OF oinv_heap[OF inv] pp] by simp
    show "\<And>k. fsc ?s1 k = map_option (\<lambda>g. real g + h k goal) (gsc ?s1 k)"
      using oinv_fsc[OF inv] by simp
    show "gsc ?s1 c = Some gc" using gc by simp
    show "set N \<subseteq> set N" by simp
  next
    fix k g assume g: "gsc ?s1 k = Some g" and kc: "k \<noteq> c"
    then have g': "gsc s k = Some g" by simp
    from oinv_live[OF inv g']
    show "(real g + h k goal, k) \<in> set (apq ?s1) \<or> relaxed grid rows cols diag ?s1 k g"
    proof
      assume m: "(real g + h k goal, k) \<in> set (apq s)"
      have "(real g + h k goal, k) \<noteq> cur" using kc by (auto simp: c_def)
      with m set_pop[OF pp] show ?thesis by auto
    next
      assume "relaxed grid rows cols diag s k g"
      then show ?thesis by (simp add: relaxed_def)
    qed
  next
    fix nb assume "edge grid rows cols diag c nb" "nb \<notin> set N"
    then have False by (simp add: edge_def N_def)
    then show "\<exists>gn. gsc ?s1 nb = Some gn \<and> gn \<le> gc + wt grid nb" ..
  qed
  have "J [] s2"
  proof (rule arelax_rule[where I = J, OF ar[folded c_def, folded N_def] J0])
    fix nb rest s' cl
    assume j: "J (nb # rest) s'" and cl: "cellAt grid nb = Some cl" and w: "wall cl"
    have ne: "\<not> edge grid rows cols diag c nb" using cl w by (simp add: edge_def freeCell_def)
    show "J rest s'"
      using j ne unfolding J_def by (auto simp del: split_paired_All)
  next
    fix nb rest s' cl d
    assume j: "J (nb # rest) s'" and cl: "cellAt grid nb = Some cl" and w: "\<not> wall cl"
      and d: "gsc s' nb = Some d" "d \<le> the (gsc s' c) + cellWeight cl"
    from j have gc': "gsc s' c = Some gc" unfolding J_def by blast
    have "d \<le> gc + wt grid nb" using d(2) gc' by (simp add: wt_cellAt[OF cl])
    with d(1) have "\<exists>gn. gsc s' nb = Some gn \<and> gn \<le> gc + wt grid nb" by simp
    with j show "J rest s'" unfolding J_def by (auto simp del: split_paired_All)
  next
    fix nb rest s' cl
    assume j: "J (nb # rest) s'" and cl: "cellAt grid nb = Some cl" and w: "\<not> wall cl"
      and im: "gsc s' nb = None \<or> the (gsc s' c) + cellWeight cl < the (gsc s' nb)"
    from j have hp: "heap (apq s')"
      and fs: "\<And>k. fsc s' k = map_option (\<lambda>g. real g + h k goal) (gsc s' k)"
      and gc': "gsc s' c = Some gc" and sub: "set (nb # rest) \<subseteq> set N"
      and lr: "\<And>k g. gsc s' k = Some g \<Longrightarrow> k \<noteq> c \<Longrightarrow>
            (real g + h k goal, k) \<in> set (apq s') \<or> relaxed grid rows cols diag s' k g"
      and dn: "\<And>x. edge grid rows cols diag c x \<Longrightarrow> x \<notin> set (nb # rest) \<Longrightarrow>
            (\<exists>gn. gsc s' x = Some gn \<and> gn \<le> gc + wt grid x)"
      unfolding J_def by blast+
    define t where "t = gc + cellWeight cl"
    have tt: "the (gsc s' c) + cellWeight cl = t" by (simp add: t_def gc')
    let ?s'' = "aimprove h goal c nb t s'"
    from sub have "nb \<in> set N" by simp
    then have nc: "nb \<noteq> c" unfolding N_def using neighbors_neq[of nb "fst c" "snd c"] by auto
    have low: "\<And>x gx. gsc s' x = Some gx \<Longrightarrow> \<exists>gy. gsc ?s'' x = Some gy \<and> gy \<le> gx"
      using im tt by (auto simp: aimprove_def)
    have "J rest ?s''"
      unfolding J_def
    proof (intro conjI allI impI)
      show "heap (apq ?s'')" using hp by (simp add: aimprove_def push_heap)
      show "\<And>k. fsc ?s'' k = map_option (\<lambda>g. real g + h k goal) (gsc ?s'' k)"
        using fs by (simp add: aimprove_def)
      show "gsc ?s'' c = Some gc" using gc' nc by (simp add: aimprove_def)
      show "set rest \<subseteq> set N" using sub by simp
    next
      fix k g assume g: "gsc ?s'' k = Some g" and kc: "k \<noteq> c"
      show "(real g + h k goal, k) \<in> set (apq ?s'') \<or> relaxed grid rows cols diag ?s'' k g"
      proof (cases "k = nb")
        case True
        with g have "g = t" by (simp add: aimprove_def)
        with True show ?thesis by (simp add: aimprove_def set_push)
      next
        case False
        with g have g': "gsc s' k = Some g" by (simp add: aimprove_def)
        from lr[OF g' kc] show ?thesis
        proof
          assume "(real g + h k goal, k) \<in> set (apq s')"
          then show ?thesis by (simp add: aimprove_def set_push)
        next
          assume "relaxed grid rows cols diag s' k g"
          from relaxed_mono[OF this low] show ?thesis by simp
        qed
      qed
    next
      fix x assume e: "edge grid rows cols diag c x" and x: "x \<notin> set rest"
      show "\<exists>gn. gsc ?s'' x = Some gn \<and> gn \<le> gc + wt grid x"
      proof (cases "x = nb")
        case True
        then show ?thesis by (simp add: aimprove_def t_def wt_cellAt[OF cl])
      next
        case False
        with x have "x \<notin> set (nb # rest)" by simp
        from dn[OF e this] obtain gn where "gsc s' x = Some gn" "gn \<le> gc + wt grid x" by blast
        with False show ?thesis by (simp add: aimprove_def)
      qed
    qed
    then show "J rest (aimprove h goal c nb (the (gsc s' c) + cellWeight cl) s')"
      by (simp add: tt)
  qed
  then have j2: "J [] s2" .
  from j2 have hp: "heap (apq s2)" unfolding J_def by blast
  from j2 have fs: "\<And>k. fsc s2 k = map_option (\<lambda>g. real g + h k goal) (gsc s2 k)"
    unfolding J_def by blast
  from j2 have gc2: "gsc s2 c = Some gc" unfolding J_def by blast
  from j2 have lr: "\<And>k g. gsc s2 k = Some g \<Longrightarrow> k \<noteq> c \<Longrightarrow>
          (real g + h k goal, k) \<in> set (apq s2) \<or> relaxed grid rows cols diag s2 k g"
    unfolding J_def by blast
  from j2 have dn: "\<And>x. edge grid rows cols diag c x \<Longrightarrow>
          (\<exists>gn. gsc s2 x = Some gn \<and> gn \<le> gc + wt grid x)"
    unfolding J_def by (simp del: split_paired_All split_paired_Ex)
  show ?thesis
  proof (rule oinvI)
    show "heap (apq s2)" by (rule hp)
    show "\<And>k. fsc s2 k = map_option (\<lambda>g. real g + h k goal) (gsc s2 k)" by (rule fs)
  next
    fix k g assume g: "gsc s2 k = Some g"
    show "(real g + h k goal, k) \<in> set (apq s2) \<or> relaxed grid rows cols diag s2 k g"
    proof (cases "k = c")
      case True
      with g gc2 have "g = gc" by simp
      with dn True show ?thesis by (simp add: relaxed_def)
    next
      case False
      from lr[OF g False] show ?thesis .
    qed
  qed
qed

end
